theory Spec2Isabelle
  imports Main
begin

section \<open>Strings as the services use them\<close>

text \<open>
  JavaScript strings are modelled as \<^typ>\<open>string\<close>. The three string operations the
  services rely on are \<open>startsWith\<close>, \<open>includes\<close> and \<open>toLowerCase\<close>; the last one is
  only ever followed by a search for the ASCII text \<open>.png\<close>, so lowering the ASCII
  capitals is all that can be observed of it.
\<close>

fun startsWith :: "string \<Rightarrow> string \<Rightarrow> bool" where
  "startsWith s [] = True"
| "startsWith [] (p # ps) = False"
| "startsWith (c # cs) (p # ps) = (c = p \<and> startsWith cs ps)"

fun includesStr :: "string \<Rightarrow> string \<Rightarrow> bool" where
  "includesStr [] needle = (needle = [])"
| "includesStr (c # cs) needle = (startsWith (c # cs) needle \<or> includesStr cs needle)"

definition lowerChar :: "char \<Rightarrow> char" where
  "lowerChar c =
     (let n = (of_char c :: nat) in if 65 \<le> n \<and> n \<le> 90 then char_of (n + 32) else c)"

definition toLowerCase :: "string \<Rightarrow> string" where
  "toLowerCase s = map lowerChar s"

text \<open>\<open>url.replace(/^\//, '')\<close>: one leading slash is removed, if there is one.\<close>

fun stripLeadingSlash :: "string \<Rightarrow> string" where
  "stripLeadingSlash [] = []"
| "stripLeadingSlash (c # cs) = (if c = CHR ''/'' then cs else c # cs)"

text \<open>\<open>Buffer.toString('base64')\<close>: the standard alphabet, padded with \<open>=\<close>.\<close>

definition b64alphabet :: string where
  "b64alphabet = ''ABCDEFGHIJKLMNOPQRSTUVWXYZabcdefghijklmnopqrstuvwxyz0123456789+/''"

definition b64char :: "nat \<Rightarrow> char" where
  "b64char k = b64alphabet ! (k mod 64)"

fun base64 :: "string \<Rightarrow> string" where
  "base64 [] = []"
| "base64 [a] =
     (let n = of_char a * 65536
      in [b64char (n div 262144), b64char (n div 4096), CHR ''='', CHR ''=''])"
| "base64 [a, b] =
     (let n = of_char a * 65536 + of_char b * 256
      in [b64char (n div 262144), b64char (n div 4096), b64char (n div 64), CHR ''=''])"
| "base64 (a # b # c # rest) =
     (let n = of_char a * 65536 + of_char b * 256 + of_char c
      in [b64char (n div 262144), b64char (n div 4096), b64char (n div 64), b64char n]
         @ base64 rest)"

section \<open>The session transport\<close>

text \<open>
  \<open>session.fetch(url, {headers: {Referer: ...}})\<close> either rejects or delivers a response.
  \<open>response.ok\<close> is the Fetch API's reading of the status (200 to 299),
  \<open>headers.get('content-type')\<close> is \<open>null\<close> when the header is absent, and the body is
  the byte sequence that \<open>arrayBuffer()\<close> yields.
\<close>

definition PROMETEO_BASE_URL :: string where
  "PROMETEO_BASE_URL = ''https://prometeo2.meteoam.it''"

record request =
  req_url :: string
  referer :: string

record response =
  status :: nat
  statusText :: string
  contentType :: "string option"
  body :: string

definition ok :: "response \<Rightarrow> bool" where
  "ok r = (200 \<le> status r \<and> status r \<le> 299)"

datatype error =
    TransportFailure
  | HttpError nat string
  | HtmlInsteadOfImage
  | FileTooSmall nat
  | FetchImageFailed nat string
  | NotConnected
  | ScriptFailure
  | ENOENT
  | JsonParseError

type_synonym transport = "request \<Rightarrow> error + response"

text \<open>\<open>x || d\<close> on a possibly \<open>null\<close> string: \<open>null\<close> and the empty string give \<open>d\<close>.\<close>

definition orElse :: "string option \<Rightarrow> string \<Rightarrow> string" where
  "orElse x d = (case x of None \<Rightarrow> d | Some s \<Rightarrow> if s = [] then d else s)"

section \<open>The file system\<close>

text \<open>
  The cache directory is a finite map from paths to file contents. \<open>statSync\<close> and
  \<open>unlinkSync\<close> throw on a path that does not exist; \<open>existsSync\<close> never throws.
\<close>

type_synonym fsys = "string \<rightharpoonup> string"

definition existsSync :: "fsys \<Rightarrow> string \<Rightarrow> bool" where
  "existsSync fs p = (fs p \<noteq> None)"

definition statSync_size :: "fsys \<Rightarrow> string \<Rightarrow> error + nat" where
  "statSync_size fs p = (case fs p of None \<Rightarrow> Inl ENOENT | Some c \<Rightarrow> Inr (length c))"

definition unlinkSync :: "fsys \<Rightarrow> string \<Rightarrow> error + fsys" where
  "unlinkSync fs p = (case fs p of None \<Rightarrow> Inl ENOENT | Some c \<Rightarrow> Inr (fs(p := None)))"

definition writeFileSync :: "fsys \<Rightarrow> string \<Rightarrow> string \<Rightarrow> fsys" where
  "writeFileSync fs p bytes = fs(p \<mapsto> bytes)"

section \<open>DownloaderService.downloadFile\<close>

text \<open>
  \<open>downloadFile\<close> suspends twice: on \<open>session.fetch\<close> and on \<open>response.arrayBuffer()\<close>.
  \<open>downloadFile_request\<close> is the request it issues, \<open>downloadFile_afterFetch\<close> is the code
  between the two suspensions (the status and content-type guards) and
  \<open>downloadFile_afterBody\<close> is the write that follows the second one.
\<close>

definition downloadFile_request :: "string \<Rightarrow> request" where
  "downloadFile_request url = \<lparr>req_url = url, referer = PROMETEO_BASE_URL\<rparr>"

definition downloadFile_afterFetch :: "error + response \<Rightarrow> error + response" where
  "downloadFile_afterFetch outcome =
     (case outcome of
        Inl e \<Rightarrow> Inl e
      | Inr r \<Rightarrow>
          if \<not> ok r then Inl (HttpError (status r) (statusText r))
          else if includesStr (orElse (contentType r) '''') ''text/html'' then Inl HtmlInsteadOfImage
          else Inr r)"

definition downloadFile_afterBody :: "response \<Rightarrow> string \<Rightarrow> fsys \<Rightarrow> fsys" where
  "downloadFile_afterBody r destPath fs = writeFileSync fs destPath (body r)"

definition downloadFile :: "transport \<Rightarrow> string \<Rightarrow> string \<Rightarrow> fsys \<Rightarrow> (error + unit) \<times> fsys" where
  "downloadFile fetch url destPath fs =
     (case downloadFile_afterFetch (fetch (downloadFile_request url)) of
        Inl e \<Rightarrow> (Inl e, fs)
      | Inr r \<Rightarrow> (Inr (), downloadFile_afterBody r destPath fs))"

section \<open>PrometeoService.fetchImage\<close>

definition fetchImage_url :: "string \<Rightarrow> string" where
  "fetchImage_url imageUrl =
     (if \<not> startsWith imageUrl ''http''
      then PROMETEO_BASE_URL @ ''/'' @ stripLeadingSlash imageUrl
      else imageUrl)"

definition fetchImage :: "transport \<Rightarrow> string \<Rightarrow> error + string" where
  "fetchImage fetch imageUrl =
     (case fetch \<lparr>req_url = fetchImage_url imageUrl, referer = PROMETEO_BASE_URL\<rparr> of
        Inl e \<Rightarrow> Inl e
      | Inr r \<Rightarrow>
          if \<not> ok r then Inl (FetchImageFailed (status r) (statusText r))
          else Inr (''data:'' @ orElse (contentType r) ''image/png'' @ '';base64,''
                    @ base64 (body r)))"

section \<open>DownloaderService: the worker pool\<close>

definition MIN_IMAGE_SIZE :: nat where
  "MIN_IMAGE_SIZE = 1024"

definition concurrency :: nat where
  "concurrency = 2"

text \<open>One entry of the work queue, \<open>{url, index}\<close>.\<close>

record item =
  url :: string
  index :: nat

text \<open>
  What the downloader takes from outside: the cache directory (\<open>getCachePath()\<close>), the
  hex digest of SHA-256 (\<open>createHash('sha256').update(u).digest('hex')\<close>) and the
  session transport. A retry only makes sense when the transport may answer the same
  request differently over time, so \<open>session env i a\<close> is the transport as it answers the
  fetch issued for queue index \<open>i\<close> on attempt \<open>a\<close>.
\<close>

record denv =
  cacheDir :: string
  sha256hex :: "string \<Rightarrow> string"
  session :: "nat \<Rightarrow> nat \<Rightarrow> transport"

definition localPathOf :: "denv \<Rightarrow> string \<Rightarrow> string" where
  "localPathOf env u =
     (let hash = take 16 (sha256hex env u);
          ext = (if includesStr (toLowerCase u) ''.png'' then ''.png'' else ''.jpg'')
      in cacheDir env @ ''/'' @ hash @ ext)"

text \<open>
  The state the workers share: the queue, the pre-sized \<open>results\<close> array (a slot that
  was never assigned is \<open>None\<close>), the cache directory's files and the \<open>downloaded\<close>
  counter behind the progress callback. \<open>fetchLog\<close> records every \<open>session.fetch\<close> the
  workers issue, as (queue index, attempt), in the order of issue.
\<close>

record dstate =
  queue :: "item list"
  results :: "string option list"
  files :: fsys
  downloaded :: nat
  fetchLog :: "(nat \<times> nat) list"

text \<open>\<open>results[i] = v\<close>: JavaScript extends an array that is assigned past its end.\<close>

definition setResult :: "string option list \<Rightarrow> nat \<Rightarrow> string \<Rightarrow> string option list" where
  "setResult rs i v =
     (if i < length rs then rs[i := Some v]
      else rs @ replicate (i - length rs) None @ [Some v])"

definition onDownloaded :: "dstate \<Rightarrow> dstate" where
  "onDownloaded st = st\<lparr>downloaded := downloaded st + 1\<rparr>"

text \<open>
  A worker is suspended at one of four \<open>await\<close>s, or has returned: on \<open>session.fetch\<close>
  and on \<open>arrayBuffer()\<close> inside \<open>downloadFile\<close>, on the promise of \<open>downloadFile\<close> itself
  (settled, its continuation not yet run), and on the back-off timer. Each suspended
  state carries the item, the attempt number and what the continuation needs.
\<close>

datatype wstate =
    AwaitFetch item nat
  | AwaitBody item nat response
  | AwaitDownloadFile item nat "error + unit"
  | AwaitTimer item nat nat
  | WorkerDone

text \<open>
  The cache check of the worker: \<open>True\<close> when the file at \<open>localPath\<close> is accepted; an
  undersized file is unlinked; an exception of \<open>statSync\<close> or \<open>unlinkSync\<close> is swallowed.
\<close>

definition cacheCheck :: "fsys \<Rightarrow> string \<Rightarrow> bool \<times> fsys" where
  "cacheCheck fs localPath =
     (if existsSync fs localPath then
        (case statSync_size fs localPath of
           Inl e \<Rightarrow> (False, fs)
         | Inr sz \<Rightarrow>
             if sz \<ge> MIN_IMAGE_SIZE then (True, fs)
             else (case unlinkSync fs localPath of
                     Inl e \<Rightarrow> (False, fs)
                   | Inr fs' \<Rightarrow> (False, fs')))
      else (False, fs))"

text \<open>
  The call of \<open>downloadFile\<close> that opens attempt \<open>a\<close>: it runs up to \<open>session.fetch\<close>,
  which is issued, and suspends.
\<close>

definition callDownloadFile :: "item \<Rightarrow> nat \<Rightarrow> dstate \<Rightarrow> wstate \<times> dstate" where
  "callDownloadFile it a st =
     (AwaitFetch it a, st\<lparr>fetchLog := fetchLog st @ [(index it, a)]\<rparr>)"

text \<open>
  The body of the \<open>while\<close> loop from \<open>queue.shift()\<close> to the first suspension, for the
  item taken. \<open>None\<close> is \<open>continue\<close>: the item is settled and the loop goes on.
\<close>

definition startItem :: "denv \<Rightarrow> item \<Rightarrow> dstate \<Rightarrow> wstate option \<times> dstate" where
  "startItem env it st =
     (if url it = [] \<or> \<not> startsWith (url it) ''http'' then
        (None, onDownloaded (st\<lparr>results := setResult (results st) (index it) []\<rparr>))
      else
        let localPath = localPathOf env (url it);
            (hit, fs') = cacheCheck (files st) localPath
        in if hit then
             (None, onDownloaded (st\<lparr>results := setResult (results st) (index it) localPath\<rparr>))
           else if (1::nat) \<le> 3 then
             (case callDownloadFile it 1 (st\<lparr>files := fs'\<rparr>) of (w, st') \<Rightarrow> (Some w, st'))
           else
             (None, onDownloaded (st\<lparr>files := fs',
                results := setResult (results st) (index it) []\<rparr>)))"

text \<open>The \<open>while (queue.length > 0)\<close> loop, run until the worker suspends or returns.\<close>

fun workerLoop :: "denv \<Rightarrow> item list \<Rightarrow> dstate \<Rightarrow> wstate \<times> dstate" where
  "workerLoop env [] st = (WorkerDone, st\<lparr>queue := []\<rparr>)"
| "workerLoop env (it # rest) st =
     (case startItem env it (st\<lparr>queue := rest\<rparr>) of
        (Some w, st') \<Rightarrow> (w, st')
      | (None, st') \<Rightarrow> workerLoop env rest st')"

definition worker :: "denv \<Rightarrow> dstate \<Rightarrow> wstate \<times> dstate" where
  "worker env st = workerLoop env (queue st) st"

text \<open>
  The end of the \<open>for\<close> loop's body for an item that is settled with value \<open>v\<close> (the
  cache path after a \<open>break\<close>, the empty string when \<open>success\<close> stayed false), then
  \<open>onDownloaded()\<close> and back to the head of the \<open>while\<close> loop.
\<close>

definition finishItem :: "denv \<Rightarrow> item \<Rightarrow> string \<Rightarrow> dstate \<Rightarrow> wstate \<times> dstate" where
  "finishItem env it v st =
     worker env (onDownloaded (st\<lparr>results := setResult (results st) (index it) v\<rparr>))"

text \<open>The test of the \<open>for\<close> loop, reached with \<open>attempt = a\<close>.\<close>

definition forLoop :: "denv \<Rightarrow> item \<Rightarrow> nat \<Rightarrow> dstate \<Rightarrow> wstate \<times> dstate" where
  "forLoop env it a st =
     (if a \<le> 3 then callDownloadFile it a st else finishItem env it [] st)"

text \<open>
  The \<open>catch\<close> block of attempt \<open>a\<close>: the file at the cache path is unlinked if it
  exists (an exception of \<open>unlinkSync\<close> is ignored), then the worker sleeps
  \<open>1500 * a\<close> ms if \<open>a < 3\<close>, and otherwise goes on to the loop's increment and test.
\<close>

definition attemptFailed :: "denv \<Rightarrow> item \<Rightarrow> nat \<Rightarrow> dstate \<Rightarrow> wstate \<times> dstate" where
  "attemptFailed env it a st =
     (let localPath = localPathOf env (url it);
          fs' = (if existsSync (files st) localPath then
                   (case unlinkSync (files st) localPath of
                      Inl e \<Rightarrow> files st
                    | Inr f \<Rightarrow> f)
                 else files st);
          st1 = st\<lparr>files := fs'\<rparr>
      in if a < 3 then (AwaitTimer it a (1500 * a), st1)
         else forLoop env it (a + 1) st1)"

text \<open>
  What a worker does when the promise it waits for settles, up to its next suspension.
\<close>

fun resume :: "denv \<Rightarrow> wstate \<Rightarrow> dstate \<Rightarrow> wstate \<times> dstate" where
  "resume env (AwaitFetch it a) st =
     (case downloadFile_afterFetch
             (session env (index it) a (downloadFile_request (url it))) of
        Inl e \<Rightarrow> (AwaitDownloadFile it a (Inl e), st)
      | Inr r \<Rightarrow> (AwaitBody it a r, st))"
| "resume env (AwaitBody it a r) st =
     (AwaitDownloadFile it a (Inr ()),
      st\<lparr>files := downloadFile_afterBody r (localPathOf env (url it)) (files st)\<rparr>)"
| "resume env (AwaitDownloadFile it a (Inl e)) st = attemptFailed env it a st"
| "resume env (AwaitDownloadFile it a (Inr u)) st =
     (let localPath = localPathOf env (url it)
      in case (if existsSync (files st) localPath
               then statSync_size (files st) localPath else Inr 0) of
           Inl e \<Rightarrow> attemptFailed env it a st
         | Inr sz \<Rightarrow>
             if sz < MIN_IMAGE_SIZE then attemptFailed env it a st
             else finishItem env it localPath st)"
| "resume env (AwaitTimer it a ms) st = forLoop env it (a + 1) st"
| "resume env WorkerDone st = (WorkerDone, st)"

section \<open>DownloaderService.downloadCharts\<close>

text \<open>
  An upper bound on the number of resumptions a worker still needs for its current
  item; a queued item needs at most twelve.
\<close>

fun wcost :: "wstate \<Rightarrow> nat" where
  "wcost (AwaitFetch it a) = 4 * (3 - a) + 3"
| "wcost (AwaitBody it a r) = 4 * (3 - a) + 2"
| "wcost (AwaitDownloadFile it a x) = 4 * (3 - a) + 1"
| "wcost (AwaitTimer it a ms) = 4 * (3 - Suc a) + 4"
| "wcost WorkerDone = 0"

definition pcost :: "wstate list \<times> dstate \<Rightarrow> nat" where
  "pcost p = sum_list (map wcost (fst p)) + 12 * length (queue (snd p))"

lemma startItem_queue:
  "startItem env it st = (r, st') \<Longrightarrow> queue st' = queue st"
  by (auto simp: startItem_def onDownloaded_def callDownloadFile_def Let_def
           split: if_splits prod.splits)

lemma startItem_cost:
  "startItem env it st = (Some w, st') \<Longrightarrow> wcost w = 11"
  by (auto simp: startItem_def onDownloaded_def callDownloadFile_def Let_def
           split: if_splits prod.splits)

lemma workerLoop_cost:
  "workerLoop env q st = (w, st') \<Longrightarrow> wcost w + 12 * length (queue st') \<le> 12 * length q"
proof (induction q arbitrary: st)
  case Nil
  then show ?case by auto
next
  case (Cons it rest)
  obtain r st1 where s: "startItem env it (st\<lparr>queue := rest\<rparr>) = (r, st1)"
    by (cases "startItem env it (st\<lparr>queue := rest\<rparr>)")
  show ?case
  proof (cases r)
    case None
    with Cons.prems s have "workerLoop env rest st1 = (w, st')" by simp
    from Cons.IH [OF this] show ?thesis by simp
  next
    case (Some w1)
    with Cons.prems s have "w = w1" "st' = st1" by simp_all
    moreover from s Some have "wcost w1 = 11" by (simp add: startItem_cost)
    moreover from s have "queue st1 = rest" by (auto dest: startItem_queue)
    ultimately show ?thesis by simp
  qed
qed

lemma finishItem_cost:
  "finishItem env it v st = (w, st') \<Longrightarrow> wcost w + 12 * length (queue st') \<le> 12 * length (queue st)"
  unfolding finishItem_def worker_def
  by (drule workerLoop_cost) (simp add: onDownloaded_def)

lemma forLoop_cost:
  "forLoop env it a st = (w, st') \<Longrightarrow>
   wcost w + 12 * length (queue st') \<le> (if a \<le> 3 then 4 * (3 - a) + 3 else 0) + 12 * length (queue st)"
  by (auto simp: forLoop_def callDownloadFile_def dest: finishItem_cost split: if_splits)

lemma attemptFailed_cost:
  "attemptFailed env it a st = (w, st') \<Longrightarrow>
   wcost w + 12 * length (queue st') < 4 * (3 - a) + 1 + 12 * length (queue st)"
  by (auto simp: attemptFailed_def Let_def dest!: forLoop_cost split: if_splits)

lemma resume_cost:
  "w \<noteq> WorkerDone \<Longrightarrow> resume env w st = (w', st') \<Longrightarrow>
   wcost w' + 12 * length (queue st') < wcost w + 12 * length (queue st)"
proof (induction env w st rule: resume.induct)
  case (1 env it a st)
  then show ?case by (auto split: sum.splits)
next
  case (2 env it a r st)
  then show ?case by auto
next
  case (3 env it a e st)
  then show ?case by (auto dest: attemptFailed_cost)
next
  case (4 env it a u st)
  then show ?case
    by (auto simp: Let_def dest: attemptFailed_cost finishItem_cost split: sum.splits if_splits)
next
  case (5 env it a ms st)
  then show ?case by (auto dest!: forLoop_cost split: if_splits)
next
  case (6 env st)
  then show ?case by simp
qed

text \<open>The workers that are suspended, by position in the pool.\<close>

definition suspended :: "wstate list \<Rightarrow> nat list" where
  "suspended ws = filter (\<lambda>w. ws ! w \<noteq> WorkerDone) [0..<length ws]"

lemma suspended_pick:
  "suspended ws \<noteq> [] \<Longrightarrow>
   suspended ws ! (n mod length (suspended ws)) < length ws \<and>
   ws ! (suspended ws ! (n mod length (suspended ws))) \<noteq> WorkerDone"
proof -
  assume ne: "suspended ws \<noteq> []"
  then have "suspended ws ! (n mod length (suspended ws)) \<in> set (suspended ws)"
    by (intro nth_mem) simp
  then show ?thesis by (simp add: suspended_def)
qed

lemma pcost_step:
  assumes "w < length ws" "ws ! w \<noteq> WorkerDone" "resume env (ws ! w) st = (w', st')"
  shows "pcost (ws[w := w'], st') < pcost (ws, st)"
proof -
  from resume_cost [OF assms(2,3)]
  have lt: "wcost w' + 12 * length (queue st') < wcost (ws ! w) + 12 * length (queue st)" .
  have le: "wcost (ws ! w) \<le> sum_list (map wcost ws)"
    using assms(1) by (simp add: member_le_sum_list)
  have "sum_list (map wcost (ws[w := w'])) = sum_list (map wcost ws) + wcost w' - wcost (ws ! w)"
    using assms(1) by (simp add: map_update sum_list_update)
  with lt le show ?thesis by (simp add: pcost_def)
qed

text \<open>
  \<open>await Promise.all(workers)\<close>: the event loop resumes one suspended worker after the
  other until none is left. Which one comes next is not in the program's hands:
  \<open>sched k\<close> chooses among the workers suspended at the \<open>k\<close>-th resumption.
\<close>

function drive :: "denv \<Rightarrow> (nat \<Rightarrow> nat) \<Rightarrow> nat \<Rightarrow> wstate list \<times> dstate \<Rightarrow> wstate list \<times> dstate" where
  "drive env sched k (ws, st) =
     (if suspended ws = [] then (ws, st)
      else
        let w = suspended ws ! (sched k mod length (suspended ws))
        in case resume env (ws ! w) st of
             (w', st') \<Rightarrow> drive env sched (Suc k) (ws[w := w'], st'))"
  by pat_completeness auto
termination
  apply (relation "measure (\<lambda>(env, sched, k, p). pcost p)")
   apply simp
  apply (auto intro!: pcost_step dest: suspended_pick [where n = "sched k" for sched k] simp: suspended_pick)
  done

declare drive.simps [simp del]

text \<open>
  The loop that starts the workers. Calling \<open>this.worker(...)\<close> runs the worker up to its
  first suspension, so the queue may already be shorter when the loop tests
  \<open>w < Math.min(this.concurrency, queue.length)\<close> again.
\<close>

function spawn :: "denv \<Rightarrow> nat \<Rightarrow> wstate list \<times> dstate \<Rightarrow> wstate list \<times> dstate" where
  "spawn env w (ws, st) =
     (if w < min concurrency (length (queue st)) then
        (case worker env st of (w', st') \<Rightarrow> spawn env (Suc w) (ws @ [w'], st'))
      else (ws, st))"
  by pat_completeness auto
termination
  by (relation "measure (\<lambda>(env, w, p). concurrency - w)") auto

declare spawn.simps [simp del]

definition initialState :: "string list \<Rightarrow> fsys \<Rightarrow> dstate" where
  "initialState urls fs =
     \<lparr>queue = map (\<lambda>(u, i). \<lparr>url = u, index = i\<rparr>) (zip urls [0..<length urls]),
      results = replicate (length urls) None,
      files = fs,
      downloaded = 0,
      fetchLog = []\<rparr>"

text \<open>
  \<open>downloadCharts\<close>: the returned \<open>results\<close> array, and with it the state the call
  leaves behind. \<open>mkdirSync(cacheDir, {recursive: true})\<close> does not touch the files.
\<close>

definition downloadCharts_run :: "denv \<Rightarrow> (nat \<Rightarrow> nat) \<Rightarrow> string list \<Rightarrow> fsys \<Rightarrow> wstate list \<times> dstate" where
  "downloadCharts_run env sched urls fs =
     drive env sched 0 (spawn env 0 ([], initialState urls fs))"

definition downloadCharts :: "denv \<Rightarrow> (nat \<Rightarrow> nat) \<Rightarrow> string list \<Rightarrow> fsys \<Rightarrow> string option list" where
  "downloadCharts env sched urls fs = results (snd (downloadCharts_run env sched urls fs))"

section \<open>PrometeoService: the mutex queue\<close>

text \<open>
  \<open>mutexQueue\<close> holds the \<open>resolve\<close> callbacks of the callers that wait, oldest first;
  a callback is identified by the number of the call it belongs to.
  \<open>acquireLock\<close> answers whether its promise is already resolved (the lock was free) or
  parked in the queue; \<open>releaseLock\<close> answers which parked call it has woken, if any.
\<close>

record mutex =
  mutexQueue :: "nat list"
  mutexLocked :: bool

definition acquireLock :: "nat \<Rightarrow> mutex \<Rightarrow> bool \<times> mutex" where
  "acquireLock caller m =
     (if \<not> mutexLocked m then (True, m\<lparr>mutexLocked := True\<rparr>)
      else (False, m\<lparr>mutexQueue := mutexQueue m @ [caller]\<rparr>))"

definition releaseLock :: "mutex \<Rightarrow> nat option \<times> mutex" where
  "releaseLock m =
     (case mutexQueue m of
        next # rest \<Rightarrow> (Some next, m\<lparr>mutexQueue := rest\<rparr>)
      | [] \<Rightarrow> (None, m\<lparr>mutexLocked := False\<rparr>))"

section \<open>PrometeoService: the page and the clock\<close>

text \<open>The scripts the service evaluates in the page, by what they do.\<close>

datatype script =
    Navigate
  | ListLoaded
  | SetArea string
  | ReadArea
  | ExtractCatalog
  | ResetArray
  | SelectProduct string
  | ReadSelected
  | ReadArrayLength
  | Fallback
  | CountLabels
  | HasInlineLabels
  | ExtractCharts

record TimeStep =
  ts_label :: string
  ts_index :: nat
  ts_imageUrl :: string

record ChartUrlsResult =
  productName :: string
  date :: string
  steps :: "TimeStep list"

record CatalogEntry =
  entryId :: string
  entryName :: string
  entryCategory :: string

record PrometeoProduct =
  p_id :: string
  p_name :: string
  p_productType :: string
  p_category :: string
  p_type :: string
  p_area :: string

record ProductCatalogResult =
  products :: "PrometeoProduct list"
  categories :: "string list"
  types :: "string list"
  areas :: "string list"

text \<open>
  What an evaluation can hand back: a number, a string, a boolean, \<open>undefined\<close>, or one
  of the two JSON payloads (already parsed).
\<close>

datatype jsval =
    JNum nat
  | JStr string
  | JBool bool
  | JUndefined
  | JCatalog "CatalogEntry list" "string list" "string list" "string list"
  | JCharts ChartUrlsResult

text \<open>\<open>v > 0\<close> and the truthiness of \<open>v\<close>, as JavaScript decides them.\<close>

fun gt0 :: "jsval \<Rightarrow> bool" where
  "gt0 (JNum n) = (n > 0)"
| "gt0 (JBool b) = b"
| "gt0 v = False"

fun truthy :: "jsval \<Rightarrow> bool" where
  "truthy (JNum n) = (n \<noteq> 0)"
| "truthy (JStr s) = (s \<noteq> [])"
| "truthy (JBool b) = b"
| "truthy JUndefined = False"
| "truthy v = True"

text \<open>\<open>a >= b\<close> on what the label poll compares (numbers).\<close>

fun geNum :: "jsval \<Rightarrow> nat \<Rightarrow> bool" where
  "geNum (JNum n) m = (n \<ge> m)"
| "geNum v m = False"

text \<open>
  The page is not under the program's control. \<open>evalJS env k\<close> is what the \<open>k\<close>-th
  \<open>executeJavaScript\<close> of the session does: the time it takes and the value it yields
  or the exception it throws. \<open>pageURL\<close>, \<open>loggedIn\<close> and \<open>loadTime\<close> are
  \<open>webContents.getURL()\<close>, \<open>authService.getStatus().isLoggedIn\<close> and the time until
  \<open>did-finish-load\<close>, each as of the moment when \<open>k\<close> evaluations have been made.
\<close>

record penv =
  evalJS :: "nat \<Rightarrow> nat \<times> (error + jsval)"
  pageURL :: "nat \<Rightarrow> string"
  loggedIn :: "nat \<Rightarrow> bool"
  loadTime :: "nat \<Rightarrow> nat"

text \<open>
  The service's state: the clock (\<open>Date.now()\<close>, in ms), the number of evaluations
  made, \<open>fetchCount\<close>, the mutex, and the log of the scripts evaluated with their
  outcomes.
\<close>

record pstate =
  now :: nat
  evals :: nat
  fetchCount :: nat
  lock :: mutex
  scriptLog :: "(script \<times> (error + jsval)) list"

definition executeJavaScript :: "penv \<Rightarrow> script \<Rightarrow> pstate \<Rightarrow> (error + jsval) \<times> pstate" where
  "executeJavaScript env sc s =
     (case evalJS env (evals s) of
        (latency, r) \<Rightarrow>
          (r, s\<lparr>now := now s + latency, evals := Suc (evals s),
                scriptLog := scriptLog s @ [(sc, r)]\<rparr>))"

text \<open>\<open>delay(ms)\<close>: Node's timers fire after at least one millisecond.\<close>

definition delay :: "nat \<Rightarrow> pstate \<Rightarrow> pstate" where
  "delay ms s = s\<lparr>now := now s + max 1 ms\<rparr>"

text \<open>Sequencing of steps that may throw: an exception ends the sequence.\<close>

definition bindE ::
  "(pstate \<Rightarrow> (error + 'a) \<times> pstate) \<Rightarrow> ('a \<Rightarrow> pstate \<Rightarrow> (error + 'b) \<times> pstate)
   \<Rightarrow> pstate \<Rightarrow> (error + 'b) \<times> pstate" where
  "bindE m f s = (case m s of (Inl e, s') \<Rightarrow> (Inl e, s') | (Inr v, s') \<Rightarrow> f v s')"

definition pause :: "nat \<Rightarrow> pstate \<Rightarrow> (error + unit) \<times> pstate" where
  "pause ms s = (Inr (), delay ms s)"

definition returnE :: "'a \<Rightarrow> pstate \<Rightarrow> (error + 'a) \<times> pstate" where
  "returnE v s = (Inr v, s)"

section \<open>PrometeoService: navigation and waiting\<close>

definition ensureSearchPage :: "penv \<Rightarrow> pstate \<Rightarrow> (error + unit) \<times> pstate" where
  "ensureSearchPage env s =
     (if \<not> loggedIn env (evals s) then (Inl NotConnected, s)
      else if \<not> includesStr (pageURL env (evals s)) ''ricercaProdotto'' then
        bindE (executeJavaScript env Navigate) (\<lambda>_ s1.
          pause 3000 (s1\<lparr>now := now s1 + min 15000 (loadTime env (evals s1))\<rparr>)) s
      else (Inr (), s))"

text \<open>
  \<open>waitForCondition\<close>: an evaluation that throws counts as "not yet". The loop ends
  because every round sleeps.
\<close>

function waitForConditionLoop ::
  "penv \<Rightarrow> script \<Rightarrow> nat \<Rightarrow> nat \<Rightarrow> nat \<Rightarrow> pstate \<Rightarrow> bool \<times> pstate" where
  "waitForConditionLoop env jsCondition maxWaitMs intervalMs start s =
     (if now s - start < maxWaitMs then
        (case executeJavaScript env jsCondition s of
           (Inr result, s1) \<Rightarrow>
             if truthy result then (True, s1)
             else waitForConditionLoop env jsCondition maxWaitMs intervalMs start (delay intervalMs s1)
         | (Inl e, s1) \<Rightarrow>
             waitForConditionLoop env jsCondition maxWaitMs intervalMs start (delay intervalMs s1))
      else (False, s))"
  by pat_completeness auto
termination
  by (relation "measure (\<lambda>(env, c, maxWaitMs, i, start, s). start + maxWaitMs - now s)")
     (auto simp: executeJavaScript_def delay_def split: prod.splits)

declare waitForConditionLoop.simps [simp del]

definition waitForCondition :: "penv \<Rightarrow> script \<Rightarrow> nat \<Rightarrow> nat \<Rightarrow> pstate \<Rightarrow> bool \<times> pstate" where
  "waitForCondition env jsCondition maxWaitMs intervalMs s =
     waitForConditionLoop env jsCondition maxWaitMs intervalMs (now s) s"

section \<open>PrometeoService._waitForStableArray\<close>

definition requiredStableChecks :: nat where
  "requiredStableChecks = 6"

text \<open>
  One round of the poll, from the read of the array length to the end of the \<open>try\<close>
  block: either the \<open>return count\<close> of the confirmed case, or the values of
  \<open>lastCount\<close> and \<open>stableChecks\<close> the loop goes on with.
\<close>

datatype round = Return jsval | Continue jsval nat

definition pollOnce :: "penv \<Rightarrow> nat \<Rightarrow> nat \<Rightarrow> jsval \<Rightarrow> nat \<Rightarrow> pstate \<Rightarrow> round \<times> pstate" where
  "pollOnce env minTotalWait start lastCount stableChecks s =
     (case executeJavaScript env ReadArrayLength s of
        (Inl e, s1) \<Rightarrow> (Continue lastCount stableChecks, s1)
      | (Inr count, s1) \<Rightarrow>
          if gt0 count then
            if count = lastCount then
              let stableChecks' = stableChecks + 1;
                  elapsed = now s1 - start
              in if stableChecks' \<ge> requiredStableChecks \<and> elapsed \<ge> minTotalWait then
                   (case executeJavaScript env ReadArrayLength (delay 1500 s1) of
                      (Inl e, s2) \<Rightarrow> (Continue lastCount stableChecks', s2)
                    | (Inr confirmCount, s2) \<Rightarrow>
                        if confirmCount = count then (Return count, s2)
                        else (Continue confirmCount 0, s2))
                 else (Continue lastCount stableChecks', s1)
            else (Continue count 0, s1)
          else (Continue lastCount stableChecks, s1))"

text \<open>
  The two ways the wait hands back a length: confirmed inside the loop, or read once
  more after the loop has run out of time.
\<close>

datatype waitExit = Confirmed | TimedOut

function waitLoop ::
  "penv \<Rightarrow> nat \<Rightarrow> nat \<Rightarrow> nat \<Rightarrow> jsval \<Rightarrow> nat \<Rightarrow> pstate \<Rightarrow> (error + waitExit \<times> jsval) \<times> pstate" where
  "waitLoop env maxWait minTotalWait start lastCount stableChecks s =
     (if now s - start < maxWait then
        (case pollOnce env minTotalWait start lastCount stableChecks s of
           (Return count, s1) \<Rightarrow> (Inr (Confirmed, count), s1)
         | (Continue lastCount' stableChecks', s1) \<Rightarrow>
             waitLoop env maxWait minTotalWait start lastCount' stableChecks' (delay 500 s1))
      else
        (case executeJavaScript env ReadArrayLength s of
           (Inl e, s1) \<Rightarrow> (Inl e, s1)
         | (Inr finalCount, s1) \<Rightarrow>
             if gt0 finalCount then (Inr (TimedOut, finalCount), s1)
             else (Inr (TimedOut, JNum 0), s1)))"
  by pat_completeness auto
termination
  by (relation "measure (\<lambda>(env, maxWait, m, start, l, k, s). start + maxWait - now s)")
     (auto simp: pollOnce_def executeJavaScript_def delay_def Let_def
           split: prod.splits sum.splits if_splits)

declare waitLoop.simps [simp del]

definition waitForStableArray_exit ::
  "penv \<Rightarrow> pstate \<Rightarrow> (error + waitExit \<times> jsval) \<times> pstate" where
  "waitForStableArray_exit env s =
     (let s0 = s\<lparr>fetchCount := fetchCount s + 1\<rparr>;
          isFirstFetch = (fetchCount s0 \<le> 2);
          maxWait = (if isFirstFetch then 30000 else 20000);
          minTotalWait = (if isFirstFetch then 4000 else 2000)
      in waitLoop env maxWait minTotalWait (now s0) (JNum 0) 0 s0)"

definition waitForStableArray :: "penv \<Rightarrow> pstate \<Rightarrow> (error + jsval) \<times> pstate" where
  "waitForStableArray env s =
     (case waitForStableArray_exit env s of
        (Inl e, s') \<Rightarrow> (Inl e, s')
      | (Inr (how, count), s') \<Rightarrow> (Inr count, s'))"

section \<open>PrometeoService: the private operations\<close>

text \<open>
  \<open>typeValueMap[productType] || '1'\<close>. \<open>typeValueMap\<close> is an object literal, so the lookup
  finds its eleven own keys and also the properties every object inherits from
  \<open>Object.prototype\<close>: functions, and for \<open>__proto__\<close> the prototype itself. All of these
  are truthy, so \<open>|| '1'\<close> lets them through; only a name that is neither gives \<open>'1'\<close>.
\<close>

definition typeValueMap :: "(string \<times> string) list" where
  "typeValueMap =
     [(''CHARTS'', ''1''), (''SATELLITE'', ''2''), (''FLIGHT CHARTS'', ''3''),
      (''MESSAGES'', ''4''), (''RADAR'', ''6''), (''METGRAMS'', ''8''),
      (''SOUNDINGS'', ''9''), (''LIGHTNING'', ''10''), (''SEASONAL'', ''11''),
      (''SPACE WEATHER'', ''12''), (''SUBSEASONAL'', ''15'')]"

definition objectPrototypeKeys :: "string list" where
  "objectPrototypeKeys =
     [''constructor'', ''hasOwnProperty'', ''isPrototypeOf'', ''propertyIsEnumerable'',
      ''toLocaleString'', ''toString'', ''valueOf'', ''__proto__'', ''__defineGetter__'',
      ''__defineSetter__'', ''__lookupGetter__'', ''__lookupSetter__'']"

datatype typeValue = MappedString string | InheritedProperty string

definition typeValueOf :: "string \<Rightarrow> typeValue" where
  "typeValueOf productType =
     (case map_of typeValueMap productType of
        Some v \<Rightarrow> MappedString (orElse (Some v) ''1'')
      | None \<Rightarrow>
          if productType \<in> set objectPrototypeKeys then InheritedProperty productType
          else MappedString ''1'')"

text \<open>
  \<open>currentValue === typeValue\<close>: a value that came back from the page is never identical
  to a function or an object of the main process.
\<close>

fun strictEquals :: "jsval \<Rightarrow> typeValue \<Rightarrow> bool" where
  "strictEquals v (MappedString t) = (v = JStr t)"
| "strictEquals v (InheritedProperty k) = False"

text \<open>\<open>${typeValue}\<close> inside the script's template: the value converted to a string.\<close>

definition nativeFunctionText :: "string \<Rightarrow> string" where
  "nativeFunctionText name = ''function '' @ name @ ''() { [native code] }''"

fun templateText :: "typeValue \<Rightarrow> string" where
  "templateText (MappedString t) = t"
| "templateText (InheritedProperty k) =
     (if k = ''__proto__'' then ''[object Object]''
      else if k = ''constructor'' then nativeFunctionText ''Object''
      else nativeFunctionText k)"

definition JSON_parse_catalog :: "string \<Rightarrow> jsval \<Rightarrow> pstate \<Rightarrow> (error + ProductCatalogResult) \<times> pstate" where
  "JSON_parse_catalog filterProductType catalogJson s =
     (case catalogJson of
        JCatalog ps cs ts as \<Rightarrow>
          (Inr \<lparr>products =
                  map (\<lambda>p. \<lparr>p_id = entryId p, p_name = entryName p,
                             p_productType = filterProductType,
                             p_category = entryCategory p, p_type = [], p_area = []\<rparr>) ps,
                categories = cs, types = ts, areas = as\<rparr>, s)
      | _ \<Rightarrow> (Inl JsonParseError, s))"

text \<open>\<open>_fetchProductCatalog\<close>; of the filter only \<open>filter.productType\<close> is read.\<close>

definition fetchProductCatalog_impl :: "penv \<Rightarrow> string \<Rightarrow> pstate \<Rightarrow> (error + ProductCatalogResult) \<times> pstate" where
  "fetchProductCatalog_impl env filterProductType =
     bindE (ensureSearchPage env) (\<lambda>_.
     bindE (executeJavaScript env (SetArea (templateText (typeValueOf filterProductType)))) (\<lambda>_.
     bindE (\<lambda>s. case waitForCondition env ListLoaded 8000 500 s of (loaded, s1) \<Rightarrow> (Inr loaded, s1)) (\<lambda>loaded.
     bindE (pause 500) (\<lambda>_.
     bindE (executeJavaScript env ExtractCatalog) (\<lambda>catalogJson.
     JSON_parse_catalog filterProductType catalogJson)))))"

text \<open>\<open>_ensureProductType\<close>.\<close>

definition ensureProductType_impl :: "penv \<Rightarrow> string \<Rightarrow> pstate \<Rightarrow> (error + unit) \<times> pstate" where
  "ensureProductType_impl env productType =
     bindE (ensureSearchPage env) (\<lambda>_.
     bindE (executeJavaScript env ReadArea) (\<lambda>currentValue.
       if strictEquals currentValue (typeValueOf productType) then returnE ()
       else
         bindE (executeJavaScript env (SetArea (templateText (typeValueOf productType)))) (\<lambda>_.
         bindE (\<lambda>s. case waitForCondition env ListLoaded 8000 500 s of (loaded, s1) \<Rightarrow> (Inr loaded, s1)) (\<lambda>_.
         pause 500))))"

text \<open>
  The wait for the validity labels in \<open>_fetchChartUrls\<close>; here an evaluation that
  throws is not caught.
\<close>

function labelWaitLoop :: "penv \<Rightarrow> nat \<Rightarrow> nat \<Rightarrow> pstate \<Rightarrow> (error + unit) \<times> pstate" where
  "labelWaitLoop env expectedCount labelWaitStart s =
     (if now s - labelWaitStart < 8000 then
        (case executeJavaScript env CountLabels s of
           (Inl e, s1) \<Rightarrow> (Inl e, s1)
         | (Inr labelCount, s1) \<Rightarrow>
             if geNum labelCount expectedCount then (Inr (), s1)
             else if gt0 labelCount \<and> now s1 - labelWaitStart > 4000 then (Inr (), s1)
             else labelWaitLoop env expectedCount labelWaitStart (delay 500 s1))
      else (Inr (), s))"
  by pat_completeness auto
termination
  by (relation "measure (\<lambda>(env, n, start, s). start + 8000 - now s)")
     (auto simp: executeJavaScript_def delay_def split: prod.splits)

declare labelWaitLoop.simps [simp del]

text \<open>\<open>lastCount || 1\<close>.\<close>

fun orOne :: "jsval \<Rightarrow> nat" where
  "orOne (JNum n) = (if n = 0 then 1 else n)"
| "orOne v = 1"

definition emptyChartUrls :: ChartUrlsResult where
  "emptyChartUrls = \<lparr>productName = [], date = [], steps = []\<rparr>"

definition JSON_parse_charts :: "jsval \<Rightarrow> pstate \<Rightarrow> (error + ChartUrlsResult) \<times> pstate" where
  "JSON_parse_charts chartJson s =
     (case chartJson of JCharts chartData \<Rightarrow> (Inr chartData, s) | _ \<Rightarrow> (Inl JsonParseError, s))"

text \<open>
  \<open>_fetchChartUrls\<close>, in the order of the source: the selection of the product with
  its one retry, the stability wait, the \<open>cercaImmagini\<close> fallback with a second wait,
  the empty result, and otherwise the wait for the labels and the extraction.
\<close>

definition selectProduct :: "penv \<Rightarrow> string \<Rightarrow> pstate \<Rightarrow> (error + unit) \<times> pstate" where
  "selectProduct env productId =
     bindE (ensureSearchPage env) (\<lambda>_.
     bindE (executeJavaScript env ResetArray) (\<lambda>_.
     bindE (executeJavaScript env (SelectProduct productId)) (\<lambda>_.
     bindE (pause 500) (\<lambda>_.
     bindE (executeJavaScript env ReadSelected) (\<lambda>selectedVal.
       if selectedVal \<noteq> JStr productId then
         bindE (pause 2000) (\<lambda>_.
         bindE (executeJavaScript env (SelectProduct productId)) (\<lambda>_.
         bindE (pause 500) (\<lambda>_.
         bindE (executeJavaScript env ReadSelected) (\<lambda>retryVal. returnE ()))))
       else returnE ())))))"

definition fallbackWait :: "penv \<Rightarrow> jsval \<Rightarrow> pstate \<Rightarrow> (error + jsval) \<times> pstate" where
  "fallbackWait env lastCount =
     (if lastCount = JNum 0 then
        bindE (executeJavaScript env Fallback) (\<lambda>_.
        bindE (pause 1000) (\<lambda>_.
        waitForStableArray env))
      else returnE lastCount)"

definition extractCharts :: "penv \<Rightarrow> jsval \<Rightarrow> pstate \<Rightarrow> (error + ChartUrlsResult) \<times> pstate" where
  "extractCharts env lastCount =
     bindE (\<lambda>s. labelWaitLoop env (orOne lastCount) (now s) s) (\<lambda>_.
     bindE (executeJavaScript env HasInlineLabels) (\<lambda>hasInlineLabels.
     bindE (executeJavaScript env ExtractCharts) (\<lambda>chartJson.
     JSON_parse_charts chartJson)))"

definition fetchChartUrls_impl :: "penv \<Rightarrow> string \<Rightarrow> pstate \<Rightarrow> (error + ChartUrlsResult) \<times> pstate" where
  "fetchChartUrls_impl env productId =
     bindE (selectProduct env productId) (\<lambda>_.
     bindE (waitForStableArray env) (\<lambda>lastCount.
     bindE (fallbackWait env lastCount) (\<lambda>lastCount.
       if lastCount = JNum 0 then returnE emptyChartUrls
       else extractCharts env lastCount)))"

section \<open>PrometeoService: the public operations\<close>

text \<open>
  Each public operation is \<open>await this.acquireLock(); try { ... } finally {
  this.releaseLock() }\<close>. A call that finds the lock taken stays parked in the queue;
  a call that holds the lock runs its body and releases the lock whether the body
  returned or threw.
\<close>

datatype 'a settled = Parked | Settled "error + 'a"

definition underLock ::
  "nat \<Rightarrow> (pstate \<Rightarrow> (error + 'a) \<times> pstate) \<Rightarrow> pstate \<Rightarrow> 'a settled \<times> pstate" where
  "underLock caller operation s =
     (case acquireLock caller (lock s) of
        (False, m) \<Rightarrow> (Parked, s\<lparr>lock := m\<rparr>)
      | (True, m) \<Rightarrow>
          (case operation (s\<lparr>lock := m\<rparr>) of
             (Inr v, s') \<Rightarrow> (Settled (Inr v), s'\<lparr>lock := snd (releaseLock (lock s'))\<rparr>)
           | (Inl e, s') \<Rightarrow> (Settled (Inl e), s'\<lparr>lock := snd (releaseLock (lock s'))\<rparr>)))"

definition fetchProductCatalog ::
  "nat \<Rightarrow> penv \<Rightarrow> string \<Rightarrow> pstate \<Rightarrow> ProductCatalogResult settled \<times> pstate" where
  "fetchProductCatalog caller env filterProductType =
     underLock caller (fetchProductCatalog_impl env filterProductType)"

definition fetchChartUrls ::
  "nat \<Rightarrow> penv \<Rightarrow> string \<Rightarrow> pstate \<Rightarrow> ChartUrlsResult settled \<times> pstate" where
  "fetchChartUrls caller env productId = underLock caller (fetchChartUrls_impl env productId)"

definition fetchCatalogAndChartUrls ::
  "nat \<Rightarrow> penv \<Rightarrow> string \<Rightarrow> string \<Rightarrow> pstate
   \<Rightarrow> (ProductCatalogResult \<times> ChartUrlsResult) settled \<times> pstate" where
  "fetchCatalogAndChartUrls caller env filterProductType productId =
     underLock caller
       (bindE (fetchProductCatalog_impl env filterProductType) (\<lambda>catalog.
        bindE (fetchChartUrls_impl env productId) (\<lambda>chartUrls.
        returnE (catalog, chartUrls))))"

definition fetchChartUrlsForPpt ::
  "nat \<Rightarrow> penv \<Rightarrow> string \<Rightarrow> string \<Rightarrow> pstate \<Rightarrow> ChartUrlsResult settled \<times> pstate" where
  "fetchChartUrlsForPpt caller env productType productId =
     underLock caller
       (bindE (ensureProductType_impl env productType) (\<lambda>_.
        fetchChartUrls_impl env productId))"

section \<open>PrometeoService: concurrent callers\<close>

text \<open>
  Several calls of the public operations in flight at once. A call has not been made
  yet, waits in the mutex queue, runs its body (the private operations it still has
  to go through), or has settled (\<open>True\<close>: resolved, \<open>False\<close>: rejected).
\<close>

datatype privateOp = FetchProductCatalogImpl | EnsureProductTypeImpl | FetchChartUrlsImpl

datatype publicOp =
    FetchProductCatalog
  | FetchChartUrls
  | FetchCatalogAndChartUrls
  | FetchChartUrlsForPpt

fun opBody :: "publicOp \<Rightarrow> privateOp list" where
  "opBody FetchProductCatalog = [FetchProductCatalogImpl]"
| "opBody FetchChartUrls = [FetchChartUrlsImpl]"
| "opBody FetchCatalogAndChartUrls = [FetchProductCatalogImpl, FetchChartUrlsImpl]"
| "opBody FetchChartUrlsForPpt = [EnsureProductTypeImpl, FetchChartUrlsImpl]"

datatype callState = NotCalled | Waiting | InBody "privateOp list" | HasSettled bool

text \<open>
  What can happen next: call \<open>i\<close> is made (it runs \<open>acquireLock\<close>); the private operation
  that call \<open>i\<close> is in touches the session once more; it returns; it throws.
\<close>

datatype event = Call nat | Touch nat | Finish nat | Throw nat

record sys =
  mtx :: mutex
  calls :: "callState list"
  trace :: "(nat \<times> privateOp) list"
  callOrder :: "nat list"
  grantOrder :: "nat list"

text \<open>The \<open>finally\<close> block of call \<open>i\<close>; the call that \<open>releaseLock\<close> wakes enters its body.\<close>

definition finallyRelease :: "publicOp list \<Rightarrow> nat \<Rightarrow> bool \<Rightarrow> sys \<Rightarrow> sys" where
  "finallyRelease ops i resolved s =
     (case releaseLock (mtx s) of
        (None, m) \<Rightarrow> s\<lparr>mtx := m, calls := (calls s)[i := HasSettled resolved]\<rparr>
      | (Some j, m) \<Rightarrow>
          s\<lparr>mtx := m,
            calls := ((calls s)[i := HasSettled resolved])[j := InBody (opBody (ops ! j))],
            grantOrder := grantOrder s @ [j]\<rparr>)"

fun step :: "publicOp list \<Rightarrow> sys \<Rightarrow> event \<Rightarrow> sys" where
  "step ops s (Call i) =
     (if i < length (calls s) \<and> calls s ! i = NotCalled then
        (case acquireLock i (mtx s) of
           (True, m) \<Rightarrow>
             s\<lparr>mtx := m, calls := (calls s)[i := InBody (opBody (ops ! i))],
               callOrder := callOrder s @ [i], grantOrder := grantOrder s @ [i]\<rparr>
         | (False, m) \<Rightarrow>
             s\<lparr>mtx := m, calls := (calls s)[i := Waiting], callOrder := callOrder s @ [i]\<rparr>)
      else s)"
| "step ops s (Touch i) =
     (if i < length (calls s) then
        (case calls s ! i of
           InBody (p # rest) \<Rightarrow> s\<lparr>trace := trace s @ [(i, p)]\<rparr>
         | _ \<Rightarrow> s)
      else s)"
| "step ops s (Finish i) =
     (if i < length (calls s) then
        (case calls s ! i of
           InBody (p # q # rest) \<Rightarrow> s\<lparr>calls := (calls s)[i := InBody (q # rest)]\<rparr>
         | InBody _ \<Rightarrow> finallyRelease ops i True s
         | _ \<Rightarrow> s)
      else s)"
| "step ops s (Throw i) =
     (if i < length (calls s) then
        (case calls s ! i of
           InBody _ \<Rightarrow> finallyRelease ops i False s
         | _ \<Rightarrow> s)
      else s)"

definition initialSys :: "publicOp list \<Rightarrow> sys" where
  "initialSys ops =
     \<lparr>mtx = \<lparr>mutexQueue = [], mutexLocked = False\<rparr>,
      calls = replicate (length ops) NotCalled,
      trace = [], callOrder = [], grantOrder = []\<rparr>"

definition runEvents :: "publicOp list \<Rightarrow> event list \<Rightarrow> sys" where
  "runEvents ops evs = foldl (step ops) (initialSys ops) evs"

section \<open>Concrete inputs\<close>

text \<open>A login page served with status 200, as the portal does for an expired session.\<close>

definition htmlLoginPage :: response where
  "htmlLoginPage =
     \<lparr>status = 200, statusText = ''OK'', contentType = Some ''text/html'', body = ''<html>''\<rparr>"

text \<open>
  A downloader whose cache directory is \<open>/cache\<close>, whose digest is a fixed text and whose
  transport serves the login page; one queue entry for a chart; and a state whose
  cache already holds a file of \<open>n\<close> bytes at that chart's path.
\<close>

definition cacheEnv :: denv where
  "cacheEnv = \<lparr>cacheDir = ''/cache'', sha256hex = (\<lambda>u. ''00112233445566778899aabbccddeeff''),
               session = (\<lambda>i a req. Inr htmlLoginPage)\<rparr>"

definition chartItem :: item where
  "chartItem = \<lparr>url = ''https://prometeo2.meteoam.it/img/H500.PNG'', index = 0\<rparr>"

definition chartPath :: string where
  "chartPath = ''/cache/0011223344556677.png''"

definition cachedState :: "nat \<Rightarrow> dstate" where
  "cachedState n =
     \<lparr>queue = [], results = [None], files = [chartPath \<mapsto> replicate n CHR ''x''],
      downloaded = 0, fetchLog = []\<rparr>"

text \<open>
  A batch of four: a chart that the transport serves as a PNG of 1024 bytes, the empty
  string, a URL that is not \<open>http\<close>, and a chart for which the transport serves the
  login page on every attempt. The digest stands in for SHA-256: the URL without
  its punctuation, padded.
\<close>

definition pngImage :: response where
  "pngImage =
     \<lparr>status = 200, statusText = ''OK'', contentType = Some ''image/png'',
      body = replicate 1024 CHR ''x''\<rparr>"

definition batchUrls :: "string list" where
  "batchUrls = [''http://p/a.png'', '''', ''ftp://p/b.png'', ''http://p/c.jpg'']"

definition batchEnv :: denv where
  "batchEnv =
     \<lparr>cacheDir = ''/cache'',
      sha256hex = (\<lambda>u. filter (\<lambda>c. c \<notin> set ''/:.'') u @ ''0000000000000000''),
      session = (\<lambda>i a req. if i = 0 then Inr pngImage else Inr htmlLoginPage)\<rparr>"

definition roundRobin :: "nat \<Rightarrow> nat" where
  "roundRobin k = k"

text \<open>
  A session that is logged in and on the search page, with a slow page: every
  evaluation takes 25 seconds. On the one page the step array stays empty (every
  evaluation yields 0); on the other it has grown by one entry at every evaluation.
  \<open>serviceWith n m\<close> is a service that has made \<open>n\<close> stability waits and whose mutex is
  \<open>m\<close>.
\<close>

definition emptyPage :: penv where
  "emptyPage =
     \<lparr>evalJS = (\<lambda>k. (25000, Inr (JNum 0))),
      pageURL = (\<lambda>k. ''https://prometeo2.meteoam.it/?q=ricercaProdotto_v2''),
      loggedIn = (\<lambda>k. True),
      loadTime = (\<lambda>k. 0)\<rparr>"

definition growingPage :: penv where
  "growingPage =
     \<lparr>evalJS = (\<lambda>k. (25000, Inr (JNum (Suc k)))),
      pageURL = (\<lambda>k. ''https://prometeo2.meteoam.it/?q=ricercaProdotto_v2''),
      loggedIn = (\<lambda>k. True),
      loadTime = (\<lambda>k. 0)\<rparr>"

definition serviceWith :: "nat \<Rightarrow> mutex \<Rightarrow> pstate" where
  "serviceWith n m = \<lparr>now = 0, evals = 0, fetchCount = n, lock = m, scriptLog = []\<rparr>"

definition freeLock :: mutex where
  "freeLock = \<lparr>mutexQueue = [], mutexLocked = False\<rparr>"

text \<open>
  A page whose form field \<open>#slArea\<close> holds \<open>1\<close> at first: the first evaluation (the
  read of the field) yields \<open>1\<close>; every later one yields \<open>2\<close>, as it does once the field
  has been set to \<open>2\<close>. Each evaluation takes 9 seconds.
\<close>

definition formPage :: penv where
  "formPage =
     \<lparr>evalJS = (\<lambda>k. (9000, Inr (JStr (if k = 0 then ''1'' else ''2'')))),
      pageURL = (\<lambda>k. ''https://prometeo2.meteoam.it/?q=ricercaProdotto_v2''),
      loggedIn = (\<lambda>k. True),
      loadTime = (\<lambda>k. 0)\<rparr>"

text \<open>
  Two calls in flight: \<open>fetchCatalogAndChartUrls\<close> (call 0) and \<open>fetchChartUrls\<close>
  (call 1). Call 1 is made while call 0 holds the lock; call 0 finishes its catalog
  part and throws in its chart part; call 1 then runs and returns.
\<close>

definition twoCalls :: "publicOp list" where
  "twoCalls = [FetchCatalogAndChartUrls, FetchChartUrls]"

definition overlapping :: "event list" where
  "overlapping = [Call 0, Call 1, Touch 0]"

definition bothSettled :: "event list" where
  "bothSettled = overlapping @ [Finish 0, Touch 0, Throw 0, Touch 1, Finish 1]"

definition heldLock :: mutex where
  "heldLock = \<lparr>mutexQueue = [3], mutexLocked = True\<rparr>"

text \<open>
  A page whose step array holds 5 entries from the start; each evaluation takes
  100 ms.
\<close>

definition steadyPage :: penv where
  "steadyPage =
     \<lparr>evalJS = (\<lambda>k. (100, Inr (JNum 5))),
      pageURL = (\<lambda>k. ''https://prometeo2.meteoam.it/?q=ricercaProdotto_v2''),
      loggedIn = (\<lambda>k. True),
      loadTime = (\<lambda>k. 0)\<rparr>"

text \<open>
  A batch in which one chart is asked for three times: \<open>a.png\<close>, \<open>a.png\<close>, \<open>b.png\<close>,
  \<open>a.png\<close>. The transport serves the fetch for index 0 as a PNG of 1024 bytes and every
  fetch for the indices 2 and 3 as the login page; the fetches for index 1 are served
  as the PNG when \<open>ok1\<close> holds and as the login page otherwise. The order of resumption
  is that of a run in which the response for index 0 arrives first, then the one for
  index 1, then the one for index 2, and the timers fire in the order they were set.
\<close>

definition dupUrls :: "string list" where
  "dupUrls = [''http://p/a.png'', ''http://p/a.png'', ''http://p/b.png'', ''http://p/a.png'']"

definition dupEnv :: "bool \<Rightarrow> denv" where
  "dupEnv ok1 =
     \<lparr>cacheDir = ''/cache'',
      sha256hex = (\<lambda>u. filter (\<lambda>c. c \<notin> set ''/:.'') u @ ''0000000000000000''),
      session = (\<lambda>i a req. if i = 0 \<or> (i = 1 \<and> ok1) then Inr pngImage
                              else Inr htmlLoginPage)\<rparr>"

definition dupSched :: "nat \<Rightarrow> nat" where
  "dupSched k = (if k \<in> set [3, 4, 7, 9, 10, 13, 15, 16] then 1 else 0)"

text \<open>
  A page on which the form field \<open>#slArea\<close> does not take the value it is set to: every
  evaluation yields \<open>1\<close>, also the read that follows a set to \<open>2\<close>. Each evaluation
  takes 9 seconds.
\<close>

definition stuckPage :: penv where
  "stuckPage =
     \<lparr>evalJS = (\<lambda>k. (9000, Inr (JStr ''1''))),
      pageURL = (\<lambda>k. ''https://prometeo2.meteoam.it/?q=ricercaProdotto_v2''),
      loggedIn = (\<lambda>k. True),
      loadTime = (\<lambda>k. 0)\<rparr>"


text \<open>
  A page whose step array holds 5 entries at every read but the third, which finds
  none; each evaluation takes 100 ms. And a page whose array stays empty, each
  evaluation taking one second.
\<close>

definition blinkPage :: penv where
  "blinkPage =
     \<lparr>evalJS = (\<lambda>k. (100, Inr (JNum (if k = 2 then 0 else 5)))),
      pageURL = (\<lambda>k. ''https://prometeo2.meteoam.it/?q=ricercaProdotto_v2''),
      loggedIn = (\<lambda>k. True),
      loadTime = (\<lambda>k. 0)\<rparr>"

definition idlePage :: penv where
  "idlePage =
     \<lparr>evalJS = (\<lambda>k. (1000, Inr (JNum 0))),
      pageURL = (\<lambda>k. ''https://prometeo2.meteoam.it/?q=ricercaProdotto_v2''),
      loggedIn = (\<lambda>k. True),
      loadTime = (\<lambda>k. 0)\<rparr>"

section \<open>What holds of every state of a download\<close>

text \<open>
  The notions the invariant of the worker pool is stated with: the initial queue, the
  item and attempt a suspended worker is occupied with, the attempts logged for a
  queue index, and what it means for an index to be settled.
\<close>

definition items0 :: "string list \<Rightarrow> item list" where
  "items0 urls = map (\<lambda>(u, i). \<lparr>url = u, index = i\<rparr>) (zip urls [0..<length urls])"

definition validUrl :: "string \<Rightarrow> bool" where
  "validUrl u = (u \<noteq> [] \<and> startsWith u ''http'')"

fun itemOf :: "wstate \<Rightarrow> item option" where
  "itemOf (AwaitFetch it a) = Some it"
| "itemOf (AwaitBody it a r) = Some it"
| "itemOf (AwaitDownloadFile it a x) = Some it"
| "itemOf (AwaitTimer it a ms) = Some it"
| "itemOf WorkerDone = None"


definition attemptsOf :: "nat \<Rightarrow> (nat \<times> nat) list \<Rightarrow> nat list" where
  "attemptsOf i log = map snd (filter (\<lambda>e. fst e = i) log)"

text \<open>The number of entries that have left the queue.\<close>

definition taken :: "string list \<Rightarrow> dstate \<Rightarrow> nat" where
  "taken urls st = length urls - length (queue st)"

text \<open>
  A settled index: an invalid URL has the empty string and no fetch; a valid URL has
  its cache path after at most three fetches, or the empty string after exactly three.
\<close>

definition settledOK :: "denv \<Rightarrow> string list \<Rightarrow> nat \<Rightarrow> string \<Rightarrow> (nat \<times> nat) list \<Rightarrow> bool" where
  "settledOK env urls i v log =
     (if validUrl (urls ! i) then
        (v = localPathOf env (urls ! i) \<and> (\<exists>m\<le>3. attemptsOf i log = [1..<Suc m]))
        \<or> (v = [] \<and> attemptsOf i log = [1, 2, 3])
      else v = [] \<and> attemptsOf i log = [])"

text \<open>The shared state, as far as it does not depend on who is in flight.\<close>

definition sharedOK :: "denv \<Rightarrow> string list \<Rightarrow> dstate \<Rightarrow> bool" where
  "sharedOK env urls st =
     (length (results st) = length urls
      \<and> length (queue st) \<le> length urls
      \<and> drop (taken urls st) (items0 urls) = queue st
      \<and> (\<forall>i<length urls. taken urls st \<le> i \<longrightarrow>
            results st ! i = None \<and> attemptsOf i (fetchLog st) = [])
      \<and> (\<forall>i<length urls. \<forall>v. results st ! i = Some v \<longrightarrow>
            settledOK env urls i v (fetchLog st)))"

text \<open>
  A worker that is occupied with entry \<open>it\<close> on attempt \<open>a\<close>, against the shared
  state: the entry has left the queue, its URL is valid, its slot is still unassigned
  and the fetches logged for it are those of the attempts \<open>1\<close> to \<open>a\<close>.
\<close>

definition holding :: "denv \<Rightarrow> string list \<Rightarrow> dstate \<Rightarrow> item \<Rightarrow> nat \<Rightarrow> bool" where
  "holding env urls st it a =
     (index it < taken urls st
      \<and> it = items0 urls ! index it
      \<and> validUrl (url it)
      \<and> results st ! index it = None
      \<and> 1 \<le> a \<and> a \<le> 3
      \<and> attemptsOf (index it) (fetchLog st) = [1..<Suc a])"

fun workerOK :: "denv \<Rightarrow> string list \<Rightarrow> dstate \<Rightarrow> wstate \<Rightarrow> bool" where
  "workerOK env urls st (AwaitFetch it a) = holding env urls st it a"
| "workerOK env urls st (AwaitBody it a r) = holding env urls st it a"
| "workerOK env urls st (AwaitDownloadFile it a x) = holding env urls st it a"
| "workerOK env urls st (AwaitTimer it a ms) = (holding env urls st it a \<and> a < 3 \<and> ms = 1500 * a)"
| "workerOK env urls st WorkerDone = True"

text \<open>What a step of one worker leaves alone: everything about the other taken indices.\<close>

definition frameOK :: "string list \<Rightarrow> nat option \<Rightarrow> dstate \<Rightarrow> dstate \<Rightarrow> bool" where
  "frameOK urls mine st st' =
     (taken urls st \<le> taken urls st'
      \<and> (\<forall>x<taken urls st. Some x \<noteq> mine \<longrightarrow>
            results st' ! x = results st ! x
            \<and> attemptsOf x (fetchLog st') = attemptsOf x (fetchLog st)))"

text \<open>
  Where the worker that has just run stands: it holds the index it held or one that
  was still queued, every index taken in this step is settled or held by it, and it
  has returned only if the queue is empty.
\<close>

definition afterOK :: "string list \<Rightarrow> nat option \<Rightarrow> dstate \<Rightarrow> wstate \<Rightarrow> dstate \<Rightarrow> bool" where
  "afterOK urls mine st w' st' =
     ((\<forall>it. itemOf w' = Some it \<longrightarrow> Some (index it) = mine \<or> taken urls st \<le> index it)
      \<and> (\<forall>x<taken urls st'. results st' ! x = None \<longrightarrow>
            (x < taken urls st \<and> Some x \<noteq> mine \<and> results st ! x = None)
            \<or> (\<exists>it. itemOf w' = Some it \<and> index it = x))
      \<and> (w' = WorkerDone \<longrightarrow> queue st' = []))"

text \<open>The pool.\<close>

definition poolOK :: "denv \<Rightarrow> string list \<Rightarrow> wstate list \<times> dstate \<Rightarrow> bool" where
  "poolOK env urls p =
     (case p of (ws, st) \<Rightarrow>
        sharedOK env urls st
        \<and> (\<forall>j<length ws. workerOK env urls st (ws ! j))
        \<and> (\<forall>j<length ws. \<forall>j'<length ws. j \<noteq> j' \<longrightarrow> itemOf (ws ! j) \<noteq> None \<longrightarrow>
              map_option index (itemOf (ws ! j)) \<noteq> map_option index (itemOf (ws ! j')))
        \<and> (\<forall>x<taken urls st. results st ! x = None \<longrightarrow>
              (\<exists>j<length ws. map_option index (itemOf (ws ! j)) = Some x))
        \<and> (queue st \<noteq> [] \<longrightarrow> (\<forall>j<length ws. ws ! j \<noteq> WorkerDone)))"

text \<open>What one run of a worker, from a resumption to its next suspension, establishes.\<close>

definition stepOK ::
  "denv \<Rightarrow> string list \<Rightarrow> nat option \<Rightarrow> dstate \<Rightarrow> wstate \<Rightarrow> dstate \<Rightarrow> bool" where
  "stepOK env urls mine st w' st' =
     (sharedOK env urls st' \<and> workerOK env urls st' w'
      \<and> frameOK urls mine st st' \<and> afterOK urls mine st w' st')"


text \<open>
  Where the contents of the cache come from: a file is one that was there when the
  call began, or the body of a response that came through the guards of
  \<open>downloadFile\<close>; and a worker that waits for a body holds such a response.
\<close>

definition servedBody :: "denv \<Rightarrow> string \<Rightarrow> bool" where
  "servedBody env c =
     (\<exists>i a u r. downloadFile_afterFetch (session env i a (downloadFile_request u)) = Inr r
        \<and> body r = c)"

definition cleanFiles :: "denv \<Rightarrow> fsys \<Rightarrow> fsys \<Rightarrow> bool" where
  "cleanFiles env fs0 fs = (\<forall>p c. fs p = Some c \<longrightarrow> fs0 p = Some c \<or> servedBody env c)"

fun cleanWorker :: "denv \<Rightarrow> wstate \<Rightarrow> bool" where
  "cleanWorker env (AwaitBody it a r) =
     (downloadFile_afterFetch (session env (index it) a (downloadFile_request (url it))) = Inr r)"
| "cleanWorker env w = True"

definition cleanPool :: "denv \<Rightarrow> fsys \<Rightarrow> wstate list \<times> dstate \<Rightarrow> bool" where
  "cleanPool env fs0 p =
     (cleanFiles env fs0 (files (snd p)) \<and> (\<forall>w\<in>set (fst p). cleanWorker env w))"

section \<open>What one entry comes to on its own\<close>

text \<open>
  The outcome of a queue entry from nothing but its own URL, the file the cache holds
  at its path when the call begins, and the answers of the transport to its own
  fetches: the cached file is accepted when it has at least 1024 bytes; attempt \<open>a\<close>
  succeeds when its response comes through the guards of \<open>downloadFile\<close> and its body
  has at least 1024 bytes. \<open>itemOutcome\<close> is the value of the slot and \<open>fetchesOf\<close> the
  attempts for which a fetch is issued.
\<close>

definition cacheOK :: "fsys \<Rightarrow> string \<Rightarrow> bool" where
  "cacheOK fs p = (case fs p of None \<Rightarrow> False | Some c \<Rightarrow> MIN_IMAGE_SIZE \<le> length c)"

definition attemptOK :: "denv \<Rightarrow> string \<Rightarrow> nat \<Rightarrow> nat \<Rightarrow> bool" where
  "attemptOK env u i a =
     (case downloadFile_afterFetch (session env i a (downloadFile_request u)) of
        Inl e \<Rightarrow> False
      | Inr r \<Rightarrow> MIN_IMAGE_SIZE \<le> length (body r))"









section \<open>What stands behind a path that is returned\<close>

text \<open>
  A cache path is backed when the cache held a file of at least 1024 bytes there when
  the call began, or when the transport answers one of the three attempts of a valid
  entry of the list with that cache path by a response that comes through the guards
  of \<open>downloadFile\<close> with a body of at least 1024 bytes. The invariant: every file of
  at least 1024 bytes and every path recorded in \<open>results\<close> is backed, and so is the
  path of a worker that waits for such a body.
\<close>

definition backed :: "denv \<Rightarrow> string list \<Rightarrow> fsys \<Rightarrow> string \<Rightarrow> bool" where
  "backed env urls fs p =
     (cacheOK fs p
      \<or> (\<exists>j<length urls. validUrl (urls ! j) \<and> localPathOf env (urls ! j) = p
            \<and> (attemptOK env (urls ! j) j 1 \<or> attemptOK env (urls ! j) j 2
               \<or> attemptOK env (urls ! j) j 3)))"

definition backedState :: "denv \<Rightarrow> string list \<Rightarrow> fsys \<Rightarrow> dstate \<Rightarrow> bool" where
  "backedState env urls fs st =
     ((\<forall>p c. files st p = Some c \<and> MIN_IMAGE_SIZE \<le> length c \<longrightarrow> backed env urls fs p)
      \<and> (\<forall>v. Some v \<in> set (results st) \<and> v \<noteq> [] \<longrightarrow> backed env urls fs v))"



section \<open>What the private operations leave alone\<close>

text \<open>
  \<open>keeps f m\<close>: running \<open>m\<close> does not change what \<open>f\<close> reads off the state.
  \<open>apart f\<close>: \<open>f\<close> does not read the clock, the evaluation counter or the script log.
\<close>

definition keeps :: "(pstate \<Rightarrow> 'x) \<Rightarrow> (pstate \<Rightarrow> 'r \<times> pstate) \<Rightarrow> bool" where
  "keeps f m = (\<forall>s. f (snd (m s)) = f s)"

definition apart :: "(pstate \<Rightarrow> 'x) \<Rightarrow> bool" where
  "apart f =
     ((\<forall>s x. f (s\<lparr>now := x\<rparr>) = f s)
      \<and> (\<forall>s x. f (s\<lparr>evals := x\<rparr>) = f s)
      \<and> (\<forall>s x. f (s\<lparr>scriptLog := x\<rparr>) = f s))"

text \<open>The number of times the script that sets \<open>#slArea\<close> and triggers the reload was run.\<close>

fun isSetArea :: "script \<times> (error + jsval) \<Rightarrow> bool" where
  "isSetArea (SetArea v, r) = True"
| "isSetArea (sc, r) = False"

definition reloadCount :: "pstate \<Rightarrow> nat" where
  "reloadCount s = length (filter isSetArea (scriptLog s))"

text \<open>The outcomes of the reads of the array length, in order, and the positive ones.\<close>

definition lengthReads :: "(script \<times> (error + jsval)) list \<Rightarrow> (error + jsval) list" where
  "lengthReads log = map snd (filter (\<lambda>e. fst e = ReadArrayLength) log)"

fun positive :: "error + jsval \<Rightarrow> bool" where
  "positive (Inr v) = gt0 v"
| "positive (Inl e) = False"

definition positiveReads :: "(script \<times> (error + jsval)) list \<Rightarrow> (error + jsval) list" where
  "positiveReads log = filter positive (lengthReads log)"

text \<open>What a run added to the script log.\<close>

definition newLog :: "pstate \<Rightarrow> pstate \<Rightarrow> (script \<times> (error + jsval)) list" where
  "newLog s s' = drop (length (scriptLog s)) (scriptLog s')"

text \<open>The list ends with \<open>n\<close> copies of \<open>x\<close>.\<close>

definition endsWithCopies :: "nat \<Rightarrow> 'a \<Rightarrow> 'a list \<Rightarrow> bool" where
  "endsWithCopies n x xs = (n \<le> length xs \<and> drop (length xs - n) xs = replicate n x)"

text \<open>
  The sentence of the specification about when a length is accepted, read as little as
  it can be read: the wait has returned the length \<open>c\<close>, so the last seven reads of the
  array length it made (six polls that found it unchanged, and the re-read of the
  confirmation) all returned \<open>c\<close>.
\<close>

definition acceptedAsStated :: "jsval \<Rightarrow> (error + jsval) list \<Rightarrow> bool" where
  "acceptedAsStated c reads = endsWithCopies (requiredStableChecks + 1) (Inr c) reads"

section \<open>What holds of every state of the concurrent callers\<close>

text \<open>
  \<open>blocks g ks\<close>: the first call of \<open>g\<close> repeated as often as the first number of \<open>ks\<close>
  says, then the second, and so on: a sequence of session touches in which the calls
  come one after the other, in the order of \<open>g\<close>, and never alternate.
\<close>

definition blocks :: "nat list \<Rightarrow> nat list \<Rightarrow> nat list" where
  "blocks g ks = concat (map (\<lambda>(i, k). replicate k i) (zip g ks))"

definition isInBody :: "callState \<Rightarrow> bool" where
  "isInBody c = (case c of InBody b \<Rightarrow> True | _ \<Rightarrow> False)"

definition sysOK :: "publicOp list \<Rightarrow> sys \<Rightarrow> bool" where
  "sysOK ops s =
     (length (calls s) = length ops
      \<and> distinct (callOrder s)
      \<and> callOrder s = grantOrder s @ mutexQueue (mtx s)
      \<and> (\<forall>i<length ops. (calls s ! i = NotCalled) = (i \<notin> set (callOrder s)))
      \<and> (\<forall>i<length ops. (calls s ! i = Waiting) = (i \<in> set (mutexQueue (mtx s))))
      \<and> (\<forall>i\<in>set (callOrder s). i < length ops)
      \<and> (\<forall>i<length ops. isInBody (calls s ! i) =
            (mutexLocked (mtx s) \<and> grantOrder s \<noteq> [] \<and> i = last (grantOrder s)))
      \<and> (mutexLocked (mtx s) \<longrightarrow> grantOrder s \<noteq> [])
      \<and> (\<not> mutexLocked (mtx s) \<longrightarrow> mutexQueue (mtx s) = [])
      \<and> (\<exists>ks. length ks = length (grantOrder s) \<and> map fst (trace s) = blocks (grantOrder s) ks)
      \<and> (\<forall>i<length ops. \<forall>b. calls s ! i = InBody b \<longrightarrow> set b \<subseteq> set (opBody (ops ! i)))
      \<and> (\<forall>t\<in>set (trace s). fst t < length ops \<and> snd t \<in> set (opBody (ops ! fst t))))"

text \<open>
  A public operation has settled (resolved or rejected) with the outcome of its body
  run from the state in which the mutex is held, the final state differs from the
  body's only in the mutex, and the mutex is left free with nobody queued.
\<close>

definition held :: "pstate \<Rightarrow> pstate" where
  "held s = s\<lparr>lock := (lock s)\<lparr>mutexLocked := True\<rparr>\<rparr>"

definition ranUnderLock ::
  "(pstate \<Rightarrow> (error + 'a) \<times> pstate) \<Rightarrow> pstate \<Rightarrow> 'a settled \<times> pstate \<Rightarrow> bool" where
  "ranUnderLock operation s out =
     ((case fst out of
         Settled r \<Rightarrow> operation (held s) = (r, (snd out)\<lparr>lock := lock (held s)\<rparr>)
       | Parked \<Rightarrow> False)
      \<and> \<not> mutexLocked (lock (snd out)) \<and> mutexQueue (lock (snd out)) = [])"

text \<open>A public operation has been parked behind the calls already queued.\<close>

definition parkedBehind :: "nat \<Rightarrow> pstate \<Rightarrow> 'a settled \<times> pstate \<Rightarrow> bool" where
  "parkedBehind caller s out =
     ((case fst out of Settled r \<Rightarrow> False | Parked \<Rightarrow> True)
      \<and> snd out = s\<lparr>lock := (lock s)\<lparr>mutexQueue := mutexQueue (lock s) @ [caller]\<rparr>\<rparr>)"

section \<open>Facts about the concrete inputs\<close>

lemma chartPath_eq: "localPathOf cacheEnv (url chartItem) = chartPath"
  by code_simp

section \<open>Lists, logs and files\<close>

lemma length_items0 [simp]: "length (items0 urls) = length urls"
  by (simp add: items0_def)

lemma items0_nth [simp]: "i < length urls \<Longrightarrow> items0 urls ! i = \<lparr>url = urls ! i, index = i\<rparr>"
  by (simp add: items0_def)

lemma initialState_queue: "queue (initialState urls fs) = items0 urls"
  by (simp add: initialState_def items0_def)

lemma attemptsOf_Nil [simp]: "attemptsOf i [] = []"
  by (simp add: attemptsOf_def)

lemma attemptsOf_snoc [simp]:
  "attemptsOf x (log @ [(i, a)]) = (if x = i then attemptsOf x log @ [a] else attemptsOf x log)"
  by (simp add: attemptsOf_def)

lemma setResult_in [simp]:
  "i < length rs \<Longrightarrow> setResult rs i v = rs[i := Some v]"
  by (simp add: setResult_def)

lemma unlinkIfExists:
  "(if existsSync fs p then (case unlinkSync fs p of Inl e \<Rightarrow> fs | Inr f \<Rightarrow> f) else fs)
   = fs(p := None)"
  by (auto simp: existsSync_def unlinkSync_def split: option.splits)

lemma drop_items0_Cons:
  assumes "drop k (items0 urls) = it # rest"
  shows "k < length urls \<and> it = \<lparr>url = urls ! k, index = k\<rparr> \<and> rest = drop (Suc k) (items0 urls)"
proof -
  from assms have k: "k < length urls"
    by (metis drop_all length_items0 list.distinct(1) not_le)
  then have "drop k (items0 urls) = items0 urls ! k # drop (Suc k) (items0 urls)"
    using Cons_nth_drop_Suc [of k "items0 urls"] by simp
  with assms k show ?thesis by simp
qed


lemma taken_updates [simp]:
  "taken urls (st\<lparr>results := r\<rparr>) = taken urls st"
  "taken urls (st\<lparr>files := f\<rparr>) = taken urls st"
  "taken urls (st\<lparr>downloaded := d\<rparr>) = taken urls st"
  "taken urls (st\<lparr>fetchLog := l\<rparr>) = taken urls st"
  "taken urls (onDownloaded st) = taken urls st"
  "taken urls (st\<lparr>queue := q\<rparr>) = length urls - length q"
  by (simp_all add: taken_def onDownloaded_def)

lemma onDownloaded_fields [simp]:
  "queue (onDownloaded st) = queue st"
  "results (onDownloaded st) = results st"
  "files (onDownloaded st) = files st"
  "fetchLog (onDownloaded st) = fetchLog st"
  by (simp_all add: onDownloaded_def)

lemma settledOK_snoc:
  "i \<noteq> j \<Longrightarrow> settledOK env urls i v (log @ [(j, a)]) = settledOK env urls i v log"
  by (simp add: settledOK_def)

lemma sharedOK_head:
  assumes ok: "sharedOK env urls st" and q: "queue st = it # rest"
  shows "taken urls st < length urls"
    and "it = \<lparr>url = urls ! taken urls st, index = taken urls st\<rparr>"
    and "rest = drop (Suc (taken urls st)) (items0 urls)"
    and "length urls - length rest = Suc (taken urls st)"
proof -
  from ok q have "drop (taken urls st) (items0 urls) = it # rest"
    by (simp add: sharedOK_def)
  from drop_items0_Cons [OF this]
  show "taken urls st < length urls"
    and "it = \<lparr>url = urls ! taken urls st, index = taken urls st\<rparr>"
    and "rest = drop (Suc (taken urls st)) (items0 urls)" by simp_all
  from ok q show "length urls - length rest = Suc (taken urls st)"
    by (auto simp: sharedOK_def taken_def)
qed

section \<open>The invariant of the worker pool\<close>

lemma sharedOK_I:
  assumes "length (results st) = length urls"
    and "length (queue st) \<le> length urls"
    and "drop (taken urls st) (items0 urls) = queue st"
    and "\<And>i. i < length urls \<Longrightarrow> taken urls st \<le> i \<Longrightarrow>
           results st ! i = None \<and> attemptsOf i (fetchLog st) = []"
    and "\<And>i v. i < length urls \<Longrightarrow> results st ! i = Some v \<Longrightarrow>
           settledOK env urls i v (fetchLog st)"
  shows "sharedOK env urls st"
  using assms unfolding sharedOK_def by blast

lemma sharedOK_len: "sharedOK env urls st \<Longrightarrow> length (results st) = length urls"
  by (simp add: sharedOK_def)

lemma sharedOK_queue_le: "sharedOK env urls st \<Longrightarrow> length (queue st) \<le> length urls"
  by (simp add: sharedOK_def)

lemma sharedOK_drop: "sharedOK env urls st \<Longrightarrow> drop (taken urls st) (items0 urls) = queue st"
  by (simp add: sharedOK_def)

lemma sharedOK_beyond:
  "sharedOK env urls st \<Longrightarrow> i < length urls \<Longrightarrow> taken urls st \<le> i \<Longrightarrow>
   results st ! i = None \<and> attemptsOf i (fetchLog st) = []"
  by (simp add: sharedOK_def)

lemma sharedOK_settled:
  "sharedOK env urls st \<Longrightarrow> i < length urls \<Longrightarrow> results st ! i = Some v \<Longrightarrow>
   settledOK env urls i v (fetchLog st)"
  by (simp add: sharedOK_def)

lemma taken_le: "taken urls st \<le> length urls"
  by (simp add: taken_def)

text \<open>Settling the entry at the head of the queue.\<close>

lemma sharedOK_settle_head:
  assumes ok: "sharedOK env urls st" and q: "queue st = it # rest"
    and v: "settledOK env urls (taken urls st) v (fetchLog st)"
  shows "sharedOK env urls
           (onDownloaded (st\<lparr>queue := rest, results := setResult (results st) (index it) v\<rparr>))"
proof -
  note h = sharedOK_head [OF ok q]
  note len = sharedOK_len [OF ok]
  have idx: "index it = taken urls st" using h(2) by simp
  show ?thesis
  proof (rule sharedOK_I, goal_cases)
    case 1
    show ?case using len h(1) idx by simp
  next
    case 2
    show ?case using sharedOK_queue_le [OF ok] q by simp
  next
    case 3
    show ?case using h by simp
  next
    case (4 i)
    then show ?case using h len idx sharedOK_beyond [OF ok, of i] by (simp add: nth_list_update)
  next
    case (5 i w)
    then show ?case
      using h len idx sharedOK_settled [OF ok, of i w] v
      by (simp add: nth_list_update split: if_splits)
  qed
qed

text \<open>Opening the first attempt for the entry at the head of the queue.\<close>

lemma sharedOK_open_head:
  assumes ok: "sharedOK env urls st" and q: "queue st = it # rest"
  shows "sharedOK env urls
           (st\<lparr>queue := rest, files := fs', fetchLog := fetchLog st @ [(index it, 1)]\<rparr>)"
proof -
  note h = sharedOK_head [OF ok q]
  note len = sharedOK_len [OF ok]
  have idx: "index it = taken urls st" using h(2) by simp
  show ?thesis
  proof (rule sharedOK_I, goal_cases)
    case 1
    show ?case using len by simp
  next
    case 2
    show ?case using sharedOK_queue_le [OF ok] q by simp
  next
    case 3
    show ?case using h by simp
  next
    case (4 i)
    then show ?case using h len idx sharedOK_beyond [OF ok, of i] by simp
  next
    case (5 i w)
    then have "i \<noteq> taken urls st"
      using sharedOK_beyond [OF ok, of "taken urls st"] h(1) by auto
    with 5 show ?case
      using idx sharedOK_settled [OF ok, of i w] by (simp add: settledOK_snoc)
  qed
qed

lemma startItem_cases:
  "(\<not> validUrl (url it) \<and>
      startItem env it st = (None, onDownloaded (st\<lparr>results := setResult (results st) (index it) []\<rparr>)))
   \<or> (validUrl (url it) \<and>
      startItem env it st =
        (None, onDownloaded (st\<lparr>results := setResult (results st) (index it) (localPathOf env (url it))\<rparr>)))
   \<or> (\<exists>fs'. validUrl (url it) \<and>
      startItem env it st =
        (Some (AwaitFetch it 1), st\<lparr>files := fs', fetchLog := fetchLog st @ [(index it, 1)]\<rparr>))"
  by (cases "cacheCheck (files st) (localPathOf env (url it))")
     (auto simp: startItem_def validUrl_def callDownloadFile_def)

text \<open>Composition of a settlement of the head with the rest of the loop.\<close>

lemma stepOK_after_settle:
  assumes ok: "sharedOK env urls st" and q: "queue st = it # rest"
    and IH: "stepOK env urls None
               (onDownloaded (st\<lparr>queue := rest, results := setResult (results st) (index it) v\<rparr>)) w' st'"
  shows "stepOK env urls None st w' st'"
proof -
  note h = sharedOK_head [OF ok q]
  note len = sharedOK_len [OF ok]
  have idx: "index it = taken urls st" using h(2) by simp
  let ?st1 = "onDownloaded (st\<lparr>queue := rest, results := setResult (results st) (index it) v\<rparr>)"
  have t1: "taken urls ?st1 = Suc (taken urls st)" using h(4) by simp
  have r1: "\<And>x. x < taken urls st \<Longrightarrow> setResult (results st) (index it) v ! x = results st ! x"
    using idx len h(1) by (simp add: nth_list_update)
  have rk: "setResult (results st) (index it) v ! taken urls st = Some v"
    using idx len h(1) by simp
  have l1: "fetchLog ?st1 = fetchLog st" by simp
  from IH have f: "frameOK urls None ?st1 st'" and a: "afterOK urls None ?st1 w' st'"
    and s: "sharedOK env urls st'" "workerOK env urls st' w'"
    by (simp_all add: stepOK_def)
  have "frameOK urls None st st'"
    using f unfolding frameOK_def t1 l1 by (auto simp: r1)
  moreover have "afterOK urls None st w' st'"
    unfolding afterOK_def
  proof (intro conjI allI impI)
    fix it' assume "itemOf w' = Some it'"
    with a show "Some (index it') = None \<or> taken urls st \<le> index it'"
      unfolding afterOK_def t1 by auto
  next
    fix x assume x: "x < taken urls st'" "results st' ! x = None"
    with a have "(x < Suc (taken urls st) \<and> setResult (results st) (index it) v ! x = None)
        \<or> (\<exists>it. itemOf w' = Some it \<and> index it = x)"
      unfolding afterOK_def t1 by auto
    then show "(x < taken urls st \<and> Some x \<noteq> None \<and> results st ! x = None)
        \<or> (\<exists>it. itemOf w' = Some it \<and> index it = x)"
      using rk r1 [of x] by (cases "x = taken urls st") auto
  next
    assume "w' = WorkerDone" with a show "queue st' = []" unfolding afterOK_def by simp
  qed
  ultimately show ?thesis using s by (simp add: stepOK_def)
qed

lemma workerLoop_stepOK:
  assumes "sharedOK env urls st" "workerLoop env (queue st) st = (w', st')"
  shows "stepOK env urls None st w' st'"
  using assms
proof (induction q \<equiv> "queue st" arbitrary: st)
  case Nil
  then have "queue st = []" by simp
  with Nil show ?case
    by (auto simp: stepOK_def sharedOK_def frameOK_def afterOK_def taken_def)
next
  case (Cons it rest)
  then have q: "queue st = it # rest" by simp
  note ok = Cons.prems(1)
  note h = sharedOK_head [OF ok q]
  note len = sharedOK_len [OF ok]
  have idx: "index it = taken urls st" and u: "url it = urls ! taken urls st" using h(2) by simp_all
  let ?st0 = "st\<lparr>queue := rest\<rparr>"
  from Cons.prems(2) q
  have run: "(case startItem env it ?st0 of (Some w, s) \<Rightarrow> (w, s) | (None, s) \<Rightarrow> workerLoop env rest s) = (w', st')"
    by simp
  have beyond: "results st ! taken urls st = None" "attemptsOf (taken urls st) (fetchLog st) = []"
    using sharedOK_beyond [OF ok, of "taken urls st"] h(1) by simp_all
  have settle: "stepOK env urls None st w' st'"
    if v: "settledOK env urls (taken urls st) v (fetchLog st)"
      and s: "startItem env it ?st0 = (None, onDownloaded (?st0\<lparr>results := setResult (results ?st0) (index it) v\<rparr>))"
    for v
  proof -
    let ?st1 = "onDownloaded (st\<lparr>queue := rest, results := setResult (results st) (index it) v\<rparr>)"
    have st1: "onDownloaded (?st0\<lparr>results := setResult (results ?st0) (index it) v\<rparr>) = ?st1" by simp
    from sharedOK_settle_head [OF ok q v] have ok1: "sharedOK env urls ?st1" .
    have q1: "rest = queue ?st1" by simp
    from run s st1 have "workerLoop env (queue ?st1) ?st1 = (w', st')" by simp
    from Cons.hyps(1) [OF q1 ok1 this] have "stepOK env urls None ?st1 w' st'" .
    from stepOK_after_settle [OF ok q this] show ?thesis .
  qed
  from startItem_cases [of it env ?st0]
  consider (invalid) "\<not> validUrl (url it)"
      "startItem env it ?st0 = (None, onDownloaded (?st0\<lparr>results := setResult (results ?st0) (index it) []\<rparr>))"
    | (hit) "validUrl (url it)"
      "startItem env it ?st0 =
         (None, onDownloaded (?st0\<lparr>results := setResult (results ?st0) (index it) (localPathOf env (url it))\<rparr>))"
    | (miss) fs' where "validUrl (url it)"
      "startItem env it ?st0 =
         (Some (AwaitFetch it 1), ?st0\<lparr>files := fs', fetchLog := fetchLog ?st0 @ [(index it, 1)]\<rparr>)"
    by blast
  then show ?case
  proof cases
    case invalid
    have "settledOK env urls (taken urls st) [] (fetchLog st)"
      using invalid(1) u beyond by (simp add: settledOK_def)
    from settle [OF this invalid(2)] show ?thesis .
  next
    case hit
    have "[1..<Suc 0] = []" by simp
    then have "settledOK env urls (taken urls st) (localPathOf env (url it)) (fetchLog st)"
      using hit(1) u beyond unfolding settledOK_def by (auto intro: exI [of _ 0])
    from settle [OF this hit(2)] show ?thesis .
  next
    case (miss fs')
    let ?st1 = "st\<lparr>queue := rest, files := fs', fetchLog := fetchLog st @ [(index it, 1)]\<rparr>"
    from run miss(2) have res: "w' = AwaitFetch it 1" "st' = ?st1" by simp_all
    from sharedOK_open_head [OF ok q] have ok1: "sharedOK env urls ?st1" .
    have "workerOK env urls ?st1 (AwaitFetch it 1)"
      using h idx u miss(1) beyond len by (simp add: holding_def)
    moreover have "frameOK urls None st ?st1"
      using h(4) idx by (simp add: frameOK_def)
    moreover have "afterOK urls None st (AwaitFetch it 1) ?st1"
      using h(4) idx by (auto simp: afterOK_def less_Suc_eq)
    ultimately show ?thesis using ok1 res by (simp add: stepOK_def)
  qed
qed

lemma files_irrelevant [simp]:
  "sharedOK env urls (st\<lparr>files := f\<rparr>) = sharedOK env urls st"
  "holding env urls (st\<lparr>files := f\<rparr>) it a = holding env urls st it a"
  "frameOK urls mine (st\<lparr>files := f\<rparr>) st' = frameOK urls mine st st'"
  "frameOK urls mine st (st'\<lparr>files := f\<rparr>) = frameOK urls mine st st'"
  "afterOK urls mine (st\<lparr>files := f\<rparr>) w' st' = afterOK urls mine st w' st'"
  "afterOK urls mine st w' (st'\<lparr>files := f\<rparr>) = afterOK urls mine st w' st'"
  by (simp_all add: sharedOK_def holding_def frameOK_def afterOK_def)

lemma workerOK_files [simp]:
  "workerOK env urls (st\<lparr>files := f\<rparr>) w = workerOK env urls st w"
  by (cases w) simp_all

lemma stepOK_files [simp]:
  "stepOK env urls mine (st\<lparr>files := f\<rparr>) w' st' = stepOK env urls mine st w' st'"
  "stepOK env urls mine st w' (st'\<lparr>files := f\<rparr>) = stepOK env urls mine st w' st'"
  by (simp_all add: stepOK_def)

text \<open>A worker that keeps its entry and leaves the shared state as it is.\<close>

lemma stepOK_stay:
  assumes "sharedOK env urls st" "workerOK env urls st w'" "itemOf w' = Some it"
  shows "stepOK env urls (Some (index it)) st w' st"
  using assms by (auto simp: stepOK_def frameOK_def afterOK_def)

lemma holding_url:
  assumes "holding env urls st it a"
  shows "index it < length urls" and "url it = urls ! index it"
proof -
  from assms have i: "index it < taken urls st" and e: "it = items0 urls ! index it"
    by (simp_all add: holding_def)
  from i taken_le [of urls st] show n: "index it < length urls" by simp
  from e n have "url it = url \<lparr>url = urls ! index it, index = index it\<rparr>" by simp
  then show "url it = urls ! index it" by simp
qed

lemma finishItem_stepOK:
  assumes ok: "sharedOK env urls st" and hold: "holding env urls st it a"
    and v: "settledOK env urls (index it) v (fetchLog st)"
    and run: "finishItem env it v st = (w', st')"
  shows "stepOK env urls (Some (index it)) st w' st'"
proof -
  let ?st1 = "onDownloaded (st\<lparr>results := setResult (results st) (index it) v\<rparr>)"
  note len = sharedOK_len [OF ok]
  from hold have i: "index it < taken urls st" by (simp add: holding_def)
  with taken_le [of urls st] have iN: "index it < length urls" by simp
  have r1: "\<And>x. x \<noteq> index it \<Longrightarrow> setResult (results st) (index it) v ! x = results st ! x"
    using iN len by simp
  have rk: "setResult (results st) (index it) v ! index it = Some v"
    using iN len by simp
  have ok1: "sharedOK env urls ?st1"
  proof (rule sharedOK_I, goal_cases)
    case 1 show ?case using len iN by simp
  next
    case 2 show ?case using sharedOK_queue_le [OF ok] by simp
  next
    case 3 show ?case using sharedOK_drop [OF ok] by simp
  next
    case (4 x)
    then show ?case using i sharedOK_beyond [OF ok, of x] len iN by simp
  next
    case (5 x w)
    then show ?case using sharedOK_settled [OF ok, of x w] v len iN
      by (cases "x = index it") simp_all
  qed
  from run have "workerLoop env (queue ?st1) ?st1 = (w', st')"
    by (simp add: finishItem_def worker_def)
  from workerLoop_stepOK [OF ok1 this] have s: "stepOK env urls None ?st1 w' st'" .
  then have f: "frameOK urls None ?st1 st'" and a: "afterOK urls None ?st1 w' st'"
    by (simp_all add: stepOK_def)
  have "frameOK urls (Some (index it)) st st'"
    using f unfolding frameOK_def by (auto simp: r1)
  moreover have "afterOK urls (Some (index it)) st w' st'"
    unfolding afterOK_def
  proof (intro conjI allI impI)
    fix it' assume "itemOf w' = Some it'"
    with a show "Some (index it') = Some (index it) \<or> taken urls st \<le> index it'"
      unfolding afterOK_def by auto
  next
    fix x assume x: "x < taken urls st'" "results st' ! x = None"
    with a have "(x < taken urls st \<and> setResult (results st) (index it) v ! x = None)
        \<or> (\<exists>it. itemOf w' = Some it \<and> index it = x)"
      unfolding afterOK_def by auto
    then show "(x < taken urls st \<and> Some x \<noteq> Some (index it) \<and> results st ! x = None)
        \<or> (\<exists>it. itemOf w' = Some it \<and> index it = x)"
      using rk r1 [of x] by (cases "x = index it") auto
  next
    assume "w' = WorkerDone" with a show "queue st' = []" unfolding afterOK_def by simp
  qed
  ultimately show ?thesis using s by (simp add: stepOK_def)
qed

lemma forLoop_stepOK:
  assumes ok: "sharedOK env urls st" and hold: "holding env urls st it a"
    and run: "forLoop env it (Suc a) st = (w', st')"
  shows "stepOK env urls (Some (index it)) st w' st'"
proof (cases "Suc a \<le> 3")
  case True
  let ?st1 = "st\<lparr>fetchLog := fetchLog st @ [(index it, Suc a)]\<rparr>"
  from run True have res: "w' = AwaitFetch it (Suc a)" "st' = ?st1"
    by (simp_all add: forLoop_def callDownloadFile_def)
  from hold have i: "index it < taken urls st" and none: "results st ! index it = None"
    by (simp_all add: holding_def)
  have ok1: "sharedOK env urls ?st1"
  proof (rule sharedOK_I, goal_cases)
    case 1 show ?case using sharedOK_len [OF ok] by simp
  next
    case 2 show ?case using sharedOK_queue_le [OF ok] by simp
  next
    case 3 show ?case using sharedOK_drop [OF ok] by simp
  next
    case (4 x)
    then show ?case using i sharedOK_beyond [OF ok, of x] by simp
  next
    case (5 x w)
    then have "x \<noteq> index it" using none by auto
    with 5 show ?case using sharedOK_settled [OF ok, of x w] by (simp add: settledOK_snoc)
  qed
  have "holding env urls ?st1 it (Suc a)"
    using hold True by (simp add: holding_def)
  then have "workerOK env urls ?st1 (AwaitFetch it (Suc a))" by simp
  moreover have "frameOK urls (Some (index it)) st ?st1"
    by (auto simp: frameOK_def)
  moreover have "afterOK urls (Some (index it)) st (AwaitFetch it (Suc a)) ?st1"
    by (auto simp: afterOK_def)
  ultimately show ?thesis using ok1 res by (simp add: stepOK_def)
next
  case False
  with hold have a3: "a = 3" by (simp add: holding_def)
  with run have fin: "finishItem env it [] st = (w', st')" by (simp add: forLoop_def)
  have "[1..<4] = [1, 2, 3::nat]" by (simp add: upt_rec)
  then have "settledOK env urls (index it) [] (fetchLog st)"
    using hold a3 holding_url [OF hold] by (simp add: holding_def settledOK_def)
  from finishItem_stepOK [OF ok hold this fin] show ?thesis .
qed

lemma attemptFailed_stepOK:
  assumes ok: "sharedOK env urls st" and hold: "holding env urls st it a"
    and run: "attemptFailed env it a st = (w', st')"
  shows "stepOK env urls (Some (index it)) st w' st'"
proof (cases "a < 3")
  case True
  with run have res: "w' = AwaitTimer it a (1500 * a)"
    "st' = st\<lparr>files := (files st)(localPathOf env (url it) := None)\<rparr>"
    by (simp_all add: attemptFailed_def unlinkIfExists)
  have "workerOK env urls st (AwaitTimer it a (1500 * a))" using hold True by simp
  from stepOK_stay [OF ok this] res show ?thesis by simp
next
  case False
  with run have "forLoop env it (Suc a) (st\<lparr>files := (files st)(localPathOf env (url it) := None)\<rparr>) = (w', st')"
    by (simp add: attemptFailed_def unlinkIfExists)
  from forLoop_stepOK [OF _ _ this] ok hold show ?thesis by simp
qed

lemma resume_stepOK:
  assumes ok: "sharedOK env urls st" and w: "workerOK env urls st w" and it: "itemOf w = Some it"
    and run: "resume env w st = (w', st')"
  shows "stepOK env urls (Some (index it)) st w' st'"
proof (cases w)
  case (AwaitFetch it0 a)
  with it w have hold: "holding env urls st it a" and it0: "it0 = it" by simp_all
  from run AwaitFetch it0 have st': "st' = st"
    and w': "(\<exists>e. w' = AwaitDownloadFile it a (Inl e)) \<or> (\<exists>r. w' = AwaitBody it a r)"
    by (auto split: sum.splits)
  from w' hold have "workerOK env urls st w'" "itemOf w' = Some it" by auto
  from stepOK_stay [OF ok this] st' show ?thesis by simp
next
  case (AwaitBody it0 a r)
  with it w run show ?thesis
    using stepOK_stay [OF ok, of "AwaitDownloadFile it a (Inr ())" it] by auto
next
  case (AwaitDownloadFile it0 a x)
  with it w have hold: "holding env urls st it a" and it0: "it0 = it" by simp_all
  show ?thesis
  proof (cases x)
    case (Inl e)
    with run AwaitDownloadFile it0 show ?thesis
      using attemptFailed_stepOK [OF ok hold] by simp
  next
    case (Inr u)
    have "settledOK env urls (index it) (localPathOf env (url it)) (fetchLog st)"
      using hold holding_url [OF hold] unfolding settledOK_def holding_def by auto
    from finishItem_stepOK [OF ok hold this] attemptFailed_stepOK [OF ok hold]
    show ?thesis using run AwaitDownloadFile it0 Inr
      by (auto simp: Let_def split: sum.splits if_splits)
  qed
next
  case (AwaitTimer it0 a ms)
  with it w run show ?thesis using forLoop_stepOK [OF ok, of it a] by simp
next
  case WorkerDone
  with it show ?thesis by simp
qed

lemma workerOK_index:
  "workerOK env urls st w \<Longrightarrow> itemOf w = Some it \<Longrightarrow> index it < taken urls st"
  by (cases w) (simp_all add: holding_def)

lemma holding_frame:
  assumes "holding env urls st it a" "frameOK urls mine st st'" "Some (index it) \<noteq> mine"
  shows "holding env urls st' it a"
  using assms unfolding holding_def frameOK_def by auto

lemma workerOK_frame:
  assumes "workerOK env urls st w" "frameOK urls mine st st'"
    "map_option index (itemOf w) \<noteq> mine \<or> itemOf w = None"
  shows "workerOK env urls st' w"
  using assms by (cases w) (auto intro: holding_frame)

lemma frameOK_queue:
  assumes "frameOK urls mine st st'" "sharedOK env urls st" "sharedOK env urls st'" "queue st' \<noteq> []"
  shows "queue st \<noteq> []"
proof -
  from assms(1) have "taken urls st \<le> taken urls st'" by (simp add: frameOK_def)
  moreover from assms(4) sharedOK_queue_le [OF assms(3)] have "taken urls st' < length urls"
    by (cases "queue st'") (simp_all add: taken_def)
  ultimately have "taken urls st < length urls" by simp
  then show ?thesis by (auto simp: taken_def)
qed

lemma poolOK_update:
  assumes pool: "poolOK env urls (ws, st)"
    and step: "stepOK env urls mine st w' st'"
    and j: "j < length ws'" "ws' ! j = w'"
    and others: "\<And>j'. j' < length ws' \<Longrightarrow> j' \<noteq> j \<Longrightarrow> j' < length ws \<and> ws' ! j' = ws ! j'"
    and kept: "\<And>j'. j' < length ws \<Longrightarrow> j' \<noteq> j \<Longrightarrow> j' < length ws'"
    and mine: "\<And>j'. j' < length ws \<Longrightarrow> j' \<noteq> j \<Longrightarrow> itemOf (ws ! j') \<noteq> None \<Longrightarrow>
                 map_option index (itemOf (ws ! j')) \<noteq> mine"
    and replaced: "j < length ws \<Longrightarrow> map_option index (itemOf (ws ! j)) = mine"
  shows "poolOK env urls (ws', st')"
proof -
  from pool have ok: "sharedOK env urls st"
    and wok: "\<And>j. j < length ws \<Longrightarrow> workerOK env urls st (ws ! j)"
    and dist: "\<And>j j'. j < length ws \<Longrightarrow> j' < length ws \<Longrightarrow> j \<noteq> j' \<Longrightarrow> itemOf (ws ! j) \<noteq> None \<Longrightarrow>
         map_option index (itemOf (ws ! j)) \<noteq> map_option index (itemOf (ws ! j'))"
    and cover: "\<And>x. x < taken urls st \<Longrightarrow> results st ! x = None \<Longrightarrow>
         \<exists>j<length ws. map_option index (itemOf (ws ! j)) = Some x"
    and nodone: "queue st \<noteq> [] \<Longrightarrow> (\<forall>j<length ws. ws ! j \<noteq> WorkerDone)"
    by (auto simp: poolOK_def)
  from step have ok': "sharedOK env urls st'" and w'ok: "workerOK env urls st' w'"
    and frame: "frameOK urls mine st st'" and after: "afterOK urls mine st w' st'"
    by (simp_all add: stepOK_def)
  from after have
    a1: "\<And>it. itemOf w' = Some it \<Longrightarrow> Some (index it) = mine \<or> taken urls st \<le> index it"
    and a2: "\<And>x. x < taken urls st' \<Longrightarrow> results st' ! x = None \<Longrightarrow>
            (x < taken urls st \<and> Some x \<noteq> mine \<and> results st ! x = None)
            \<or> (\<exists>it. itemOf w' = Some it \<and> index it = x)"
    and a3: "w' = WorkerDone \<Longrightarrow> queue st' = []"
    by (auto simp: afterOK_def)
  have old: "workerOK env urls st' (ws' ! j')" if "j' < length ws'" "j' \<noteq> j" for j'
  proof -
    from others [OF that] have o: "j' < length ws" "ws' ! j' = ws ! j'" by simp_all
    have "map_option index (itemOf (ws ! j')) \<noteq> mine \<or> itemOf (ws ! j') = None"
      using mine [OF o(1) that(2)] by (cases "itemOf (ws ! j')") auto
    from workerOK_frame [OF wok [OF o(1)] frame this] o show ?thesis by simp
  qed
  have new_vs_old: "map_option index (itemOf w') \<noteq> map_option index (itemOf (ws ! j'))"
    if "j' < length ws" "j' \<noteq> j" "itemOf w' \<noteq> None \<or> itemOf (ws ! j') \<noteq> None" for j'
  proof (cases "itemOf w'")
    case None
    with that show ?thesis by auto
  next
    case (Some it')
    show ?thesis
    proof (cases "itemOf (ws ! j')")
      case None
      with Some show ?thesis by simp
    next
      case (Some it2)
      from workerOK_index [OF wok [OF that(1)] Some] have lt: "index it2 < taken urls st" .
      from mine [OF that(1,2)] Some have ne: "Some (index it2) \<noteq> mine" by simp
      from a1 [OF \<open>itemOf w' = Some it'\<close>] lt ne have "index it' \<noteq> index it2" by auto
      with Some \<open>itemOf w' = Some it'\<close> show ?thesis by simp
    qed
  qed
  show ?thesis
    unfolding poolOK_def prod.case
  proof (intro conjI allI impI)
    show "sharedOK env urls st'" by (rule ok')
  next
    fix j' assume "j' < length ws'"
    then show "workerOK env urls st' (ws' ! j')"
      using old [of j'] w'ok j by (cases "j' = j") simp_all
  next
    fix a b assume ab: "a < length ws'" "b < length ws'" "a \<noteq> b" "itemOf (ws' ! a) \<noteq> None"
    show "map_option index (itemOf (ws' ! a)) \<noteq> map_option index (itemOf (ws' ! b))"
    proof (cases "a = j")
      case True
      with ab have "b \<noteq> j" by simp
      from others [OF ab(2) this] new_vs_old [of b] ab True j \<open>b \<noteq> j\<close> show ?thesis by auto
    next
      case False
      note oa = others [OF ab(1) False]
      show ?thesis
      proof (cases "b = j")
        case True
        from new_vs_old [of a] oa ab False True j show ?thesis by (auto simp: eq_commute)
      next
        case bj: False
        from others [OF ab(2) bj] oa dist [of a b] ab show ?thesis by simp
      qed
    qed
  next
    fix x assume x: "x < taken urls st'" "results st' ! x = None"
    from a2 [OF x] show "\<exists>j<length ws'. map_option index (itemOf (ws' ! j)) = Some x"
    proof
      assume o: "x < taken urls st \<and> Some x \<noteq> mine \<and> results st ! x = None"
      with cover [of x] obtain j'' where j'': "j'' < length ws"
        "map_option index (itemOf (ws ! j'')) = Some x" by auto
      from replaced j'' o have ne: "j'' \<noteq> j" by auto
      then have "j'' < length ws' \<and> ws' ! j'' = ws ! j''"
        using kept [OF j''(1)] others [of j''] by auto
      with j''(2) show ?thesis by auto
    next
      assume "\<exists>it. itemOf w' = Some it \<and> index it = x"
      with j show ?thesis by auto
    qed
  next
    fix j' assume q: "queue st' \<noteq> []" and j': "j' < length ws'"
    from frameOK_queue [OF frame ok ok' q] have "queue st \<noteq> []" .
    from nodone [OF this] a3 q others [of j'] j j' show "ws' ! j' \<noteq> WorkerDone"
      by (cases "j' = j") auto
  qed
qed

lemma itemOf_Some: "w \<noteq> WorkerDone \<Longrightarrow> \<exists>it. itemOf w = Some it"
  by (cases w) simp_all

lemma poolOK_resume:
  assumes pool: "poolOK env urls (ws, st)" and j: "j < length ws" "ws ! j \<noteq> WorkerDone"
    and run: "resume env (ws ! j) st = (w', st')"
  shows "poolOK env urls (ws[j := w'], st')"
proof -
  from itemOf_Some [OF j(2)] obtain it where it: "itemOf (ws ! j) = Some it" ..
  from pool j have ok: "sharedOK env urls st" and wok: "workerOK env urls st (ws ! j)"
    by (auto simp: poolOK_def)
  from resume_stepOK [OF ok wok it run]
  have step: "stepOK env urls (Some (index it)) st w' st'" .
  show ?thesis
  proof (rule poolOK_update [OF pool step, of j])
    show "j < length (ws[j := w'])" using j by simp
    show "ws[j := w'] ! j = w'" using j by simp
  next
    fix j' assume "j' < length (ws[j := w'])" "j' \<noteq> j"
    then show "j' < length ws \<and> ws[j := w'] ! j' = ws ! j'" by simp
  next
    fix j' assume "j' < length ws" "j' \<noteq> j"
    then show "j' < length (ws[j := w'])" by simp
  next
    fix j' assume a: "j' < length ws" "j' \<noteq> j" "itemOf (ws ! j') \<noteq> None"
    from pool a j it show "map_option index (itemOf (ws ! j')) \<noteq> Some (index it)"
      unfolding poolOK_def prod.case by (metis option.simps(9))
  next
    show "map_option index (itemOf (ws ! j)) = Some (index it)" using it by simp
  qed
qed

lemma poolOK_worker:
  assumes pool: "poolOK env urls (ws, st)" and run: "worker env st = (w', st')"
  shows "poolOK env urls (ws @ [w'], st')"
proof -
  from pool have ok: "sharedOK env urls st" by (simp add: poolOK_def)
  from run have "workerLoop env (queue st) st = (w', st')" by (simp add: worker_def)
  from workerLoop_stepOK [OF ok this] have step: "stepOK env urls None st w' st'" .
  show ?thesis
  proof (rule poolOK_update [OF pool step, of "length ws"])
    fix j' assume "j' < length (ws @ [w'])" "j' \<noteq> length ws"
    then show "j' < length ws \<and> (ws @ [w']) ! j' = ws ! j'" by (simp add: nth_append)
  next
    fix j' assume "itemOf (ws ! j') \<noteq> None"
    then show "map_option index (itemOf (ws ! j')) \<noteq> None" by simp
  qed simp_all
qed

lemma spawn_stop:
  "\<not> w < min concurrency (length (queue st)) \<Longrightarrow> spawn env w (ws, st) = (ws, st)"
  by (subst spawn.simps) (simp only: if_False)

lemma spawn_go:
  "w < min concurrency (length (queue st)) \<Longrightarrow> worker env st = (w', st') \<Longrightarrow>
   spawn env w (ws, st) = spawn env (Suc w) (ws @ [w'], st')"
  by (subst spawn.simps) (simp only: if_True prod.case)

lemma drive_stop:
  "suspended ws = [] \<Longrightarrow> drive env sched k (ws, st) = (ws, st)"
  by (subst drive.simps) simp

lemma drive_go:
  "suspended ws \<noteq> [] \<Longrightarrow> resume env (ws ! pick) st = (w', st') \<Longrightarrow>
   pick = suspended ws ! (sched k mod length (suspended ws)) \<Longrightarrow>
   drive env sched k (ws, st) = drive env sched (Suc k) (ws[pick := w'], st')"
  by (subst drive.simps) (simp add: Let_def)

lemma spawn_poolOK:
  "poolOK env urls p \<Longrightarrow> poolOK env urls (spawn env w p)"
proof (induction env w p rule: spawn.induct)
  case (1 env w ws st)
  show ?case
  proof (cases "w < min concurrency (length (queue st))")
    case True
    obtain w' st' where r: "worker env st = (w', st')" by (cases "worker env st")
    from poolOK_worker [OF "1.prems" r] have "poolOK env urls (ws @ [w'], st')" .
    from "1.IH" [OF True r [symmetric] this] show ?thesis
      by (simp add: spawn_go [OF True r])
  next
    case False
    with "1.prems" show ?thesis by (simp add: spawn_stop)
  qed
qed

lemma drive_poolOK:
  "poolOK env urls p \<Longrightarrow> poolOK env urls (drive env sched k p)"
proof (induction env sched k p rule: drive.induct)
  case (1 env sched k ws st)
  show ?case
  proof (cases "suspended ws = []")
    case True
    with "1.prems" show ?thesis by (simp add: drive_stop)
  next
    case False
    let ?j = "suspended ws ! (sched k mod length (suspended ws))"
    obtain w' st' where r: "resume env (ws ! ?j) st = (w', st')"
      by (cases "resume env (ws ! ?j) st")
    from suspended_pick [OF False, of "sched k"]
    have j: "?j < length ws" "ws ! ?j \<noteq> WorkerDone" by simp_all
    from poolOK_resume [OF "1.prems" j r] have "poolOK env urls (ws[?j := w'], st')" .
    from "1.IH" [OF False refl r [symmetric] this] show ?thesis
      by (simp add: drive_go [where sched = sched and k = k, OF False r refl])
  qed
qed

lemma drive_finished:
  "suspended (fst (drive env sched k p)) = []"
proof (induction env sched k p rule: drive.induct)
  case (1 env sched k ws st)
  show ?case
  proof (cases "suspended ws = []")
    case True
    then show ?thesis by (simp add: drive_stop)
  next
    case False
    let ?j = "suspended ws ! (sched k mod length (suspended ws))"
    obtain w' st' where r: "resume env (ws ! ?j) st = (w', st')"
      by (cases "resume env (ws ! ?j) st")
    from "1.IH" [OF False refl r [symmetric]] show ?thesis
      by (simp add: drive_go [where sched = sched and k = k, OF False r refl])
  qed
qed

lemma drive_length:
  "length (fst (drive env sched k p)) = length (fst p)"
proof (induction env sched k p rule: drive.induct)
  case (1 env sched k ws st)
  show ?case
  proof (cases "suspended ws = []")
    case True
    then show ?thesis by (simp add: drive_stop)
  next
    case False
    let ?j = "suspended ws ! (sched k mod length (suspended ws))"
    obtain w' st' where r: "resume env (ws ! ?j) st = (w', st')"
      by (cases "resume env (ws ! ?j) st")
    from "1.IH" [OF False refl r [symmetric]] show ?thesis
      by (simp add: drive_go [where sched = sched and k = k, OF False r refl])
  qed
qed

text \<open>Entries are left in the queue only if the loop has started its two workers.\<close>

lemma spawn_started:
  "(0 < w \<longrightarrow> fst p \<noteq> []) \<Longrightarrow> queue (snd (spawn env w p)) \<noteq> [] \<Longrightarrow> fst (spawn env w p) \<noteq> []"
proof (induction env w p rule: spawn.induct)
  case (1 env w ws st)
  show ?case
  proof (cases "w < min concurrency (length (queue st))")
    case True
    obtain w' st' where r: "worker env st = (w', st')" by (cases "worker env st")
    from "1.IH" [OF True r [symmetric]] "1.prems"(2) show ?thesis
      by (simp add: spawn_go [OF True r])
  next
    case False
    with "1.prems" show ?thesis
      by (cases "queue st") (auto simp: concurrency_def spawn_stop)
  qed
qed

lemma poolOK_initial: "poolOK env urls ([], initialState urls fs)"
proof -
  have "sharedOK env urls (initialState urls fs)"
    by (rule sharedOK_I) (simp_all add: initialState_def taken_def items0_def)
  then show ?thesis
    by (simp add: poolOK_def initialState_def taken_def)
qed

text \<open>Every index is settled when \<open>downloadCharts\<close> returns.\<close>

lemma downloadCharts_run_settled:
  assumes run: "downloadCharts_run env sched urls fs = (ws, st)"
  shows "length (results st) = length urls
       \<and> (\<forall>i<length urls. \<exists>v. results st ! i = Some v \<and> settledOK env urls i v (fetchLog st))"
proof -
  let ?p = "spawn env 0 ([], initialState urls fs)"
  from spawn_poolOK [OF poolOK_initial] have p1: "poolOK env urls ?p" .
  from drive_poolOK [OF this, of sched 0] run
  have pool: "poolOK env urls (ws, st)" by (simp add: downloadCharts_run_def)
  from drive_finished [of env sched 0 ?p] run
  have fin: "suspended ws = []" by (simp add: downloadCharts_run_def)
  then have alldone: "\<And>j. j < length ws \<Longrightarrow> ws ! j = WorkerDone"
    by (auto simp: suspended_def filter_empty_conv)
  from pool have ok: "sharedOK env urls st" by (simp add: poolOK_def)
  have qe: "queue st = []"
  proof (cases ws)
    case Nil
    from drive_length [of env sched 0 ?p] run Nil have e: "fst ?p = []"
      by (simp add: downloadCharts_run_def)
    then have "drive env sched 0 ?p = ?p"
      by (cases ?p) (simp add: suspended_def drive_stop)
    with run have "st = snd ?p" by (simp add: downloadCharts_run_def)
    with spawn_started [of 0 "([], initialState urls fs)" env] e show ?thesis by auto
  next
    case (Cons w0 ws0)
    with alldone [of 0] have "ws ! 0 = WorkerDone" "0 < length ws" by simp_all
    with pool show ?thesis unfolding poolOK_def prod.case by blast
  qed
  then have t: "taken urls st = length urls" by (simp add: taken_def)
  have "\<exists>v. results st ! i = Some v" if "i < length urls" for i
  proof (rule ccontr)
    assume "\<nexists>v. results st ! i = Some v"
    then have "results st ! i = None" by simp
    with pool that t obtain j where "j < length ws" "map_option index (itemOf (ws ! j)) = Some i"
      unfolding poolOK_def prod.case by metis
    with alldone show False by simp
  qed
  with sharedOK_settled [OF ok] sharedOK_len [OF ok] show ?thesis by blast
qed

lemma settledOK_attempts:
  assumes "settledOK env urls i v log"
  shows "\<exists>m\<le>3. attemptsOf i log = [1..<Suc m]"
proof -
  have e: "[1, 2, 3] = [1..<Suc 3]" "[] = [1..<Suc 0]" by (simp_all add: upt_rec)
  show ?thesis
  proof (cases "validUrl (urls ! i)")
    case True
    with assms have "(\<exists>m\<le>3. attemptsOf i log = [1..<Suc m]) \<or> attemptsOf i log = [1, 2, 3]"
      by (simp only: settledOK_def if_True) blast
    then show ?thesis using e(1) by (metis le_refl)
  next
    case False
    with assms have "attemptsOf i log = []" by (simp only: settledOK_def if_False)
    then show ?thesis using e(2) by (metis zero_le)
  qed
qed

section \<open>Where the files of the cache come from\<close>

lemma cleanFiles_unlink: "cleanFiles env fs0 fs \<Longrightarrow> cleanFiles env fs0 (fs(p := None))"
  by (simp add: cleanFiles_def)

lemma cleanFiles_write:
  "cleanFiles env fs0 fs \<Longrightarrow> servedBody env c \<Longrightarrow> cleanFiles env fs0 (fs(p \<mapsto> c))"
  by (simp add: cleanFiles_def)

lemma cacheCheck_clean:
  "cleanFiles env fs0 fs \<Longrightarrow> cleanFiles env fs0 (snd (cacheCheck fs p))"
  by (auto simp: cacheCheck_def unlinkSync_def statSync_size_def cleanFiles_unlink
           split: option.splits sum.splits)

lemma startItem_clean:
  assumes "startItem env it st = (r, st')" "cleanFiles env fs0 (files st)"
  shows "cleanFiles env fs0 (files st') \<and> (\<forall>w. r = Some w \<longrightarrow> cleanWorker env w)"
proof -
  from cacheCheck_clean [OF assms(2), of "localPathOf env (url it)"]
  have "cleanFiles env fs0 (snd (cacheCheck (files st) (localPathOf env (url it))))" .
  with assms show ?thesis
    by (auto simp: startItem_def onDownloaded_def callDownloadFile_def Let_def
             split: if_splits prod.splits)
qed

lemma workerLoop_clean:
  "workerLoop env q st = (w, st') \<Longrightarrow> cleanFiles env fs0 (files st) \<Longrightarrow>
   cleanFiles env fs0 (files st') \<and> cleanWorker env w"
proof (induction q arbitrary: st)
  case Nil
  then show ?case by auto
next
  case (Cons it rest)
  obtain r st1 where s: "startItem env it (st\<lparr>queue := rest\<rparr>) = (r, st1)"
    by (cases "startItem env it (st\<lparr>queue := rest\<rparr>)")
  from Cons.prems(2) have "cleanFiles env fs0 (files (st\<lparr>queue := rest\<rparr>))" by simp
  from startItem_clean [OF s this]
  have c1: "cleanFiles env fs0 (files st1)" and w1: "\<forall>w. r = Some w \<longrightarrow> cleanWorker env w"
    by simp_all
  show ?case
  proof (cases r)
    case None
    with Cons.prems(1) s have "workerLoop env rest st1 = (w, st')" by simp
    from Cons.IH [OF this c1] show ?thesis .
  next
    case (Some w1)
    with Cons.prems(1) s have "w = w1" "st' = st1" by simp_all
    with c1 w1 Some show ?thesis by simp
  qed
qed

lemma finishItem_clean:
  "finishItem env it v st = (w, st') \<Longrightarrow> cleanFiles env fs0 (files st) \<Longrightarrow>
   cleanFiles env fs0 (files st') \<and> cleanWorker env w"
  unfolding finishItem_def worker_def
  by (erule workerLoop_clean) (simp add: onDownloaded_def)

lemma forLoop_clean:
  "forLoop env it a st = (w, st') \<Longrightarrow> cleanFiles env fs0 (files st) \<Longrightarrow>
   cleanFiles env fs0 (files st') \<and> cleanWorker env w"
  by (auto simp: forLoop_def callDownloadFile_def dest: finishItem_clean split: if_splits)

lemma attemptFailed_clean:
  assumes "attemptFailed env it a st = (w, st')" "cleanFiles env fs0 (files st)"
  shows "cleanFiles env fs0 (files st') \<and> cleanWorker env w"
proof -
  let ?st1 = "st\<lparr>files := (files st)(localPathOf env (url it) := None)\<rparr>"
  from assms(2) have c: "cleanFiles env fs0 (files ?st1)" by (simp add: cleanFiles_unlink)
  show ?thesis
  proof (cases "a < 3")
    case True
    with assms(1) c show ?thesis by (auto simp: attemptFailed_def unlinkIfExists)
  next
    case False
    with assms(1) have "forLoop env it (a + 1) ?st1 = (w, st')"
      by (simp add: attemptFailed_def unlinkIfExists)
    from forLoop_clean [OF this c] show ?thesis .
  qed
qed

lemma resume_clean:
  assumes "resume env w st = (w', st')" "cleanWorker env w" "cleanFiles env fs0 (files st)"
  shows "cleanFiles env fs0 (files st') \<and> cleanWorker env w'"
  using assms
proof (induction env w st rule: resume.induct)
  case (1 env it a st)
  then show ?case by (auto split: sum.splits)
next
  case (2 env it a r st)
  from "2.prems"(2) have served: "servedBody env (body r)" by (auto simp: servedBody_def)
  from "2.prems"(1) have w': "w' = AwaitDownloadFile it a (Inr ())"
    and f: "files st' = (files st)(localPathOf env (url it) \<mapsto> body r)"
    by (auto simp: downloadFile_afterBody_def writeFileSync_def)
  have "cleanFiles env fs0 (files st')"
    unfolding f by (rule cleanFiles_write [OF "2.prems"(3) served])
  moreover from w' have "cleanWorker env w'" by simp
  ultimately show ?case by blast
next
  case (3 env it a e st)
  then show ?case by (auto dest: attemptFailed_clean)
next
  case (4 env it a u st)
  then show ?case
    by (auto simp: Let_def dest: attemptFailed_clean finishItem_clean
             split: sum.splits if_splits)
next
  case (5 env it a ms st)
  then show ?case by (auto dest: forLoop_clean)
next
  case (6 env st)
  then show ?case by simp
qed

lemma spawn_clean:
  "cleanPool env fs0 p \<Longrightarrow> cleanPool env fs0 (spawn env w p)"
proof (induction env w p rule: spawn.induct)
  case (1 env w ws st)
  show ?case
  proof (cases "w < min concurrency (length (queue st))")
    case False
    with "1.prems" show ?thesis by (simp add: spawn_stop)
  next
    case True
    obtain w' st' where r: "worker env st = (w', st')" by (cases "worker env st")
    from r "1.prems" have "cleanFiles env fs0 (files st') \<and> cleanWorker env w'"
      unfolding worker_def cleanPool_def by (auto dest: workerLoop_clean)
    with "1.prems" have "cleanPool env fs0 (ws @ [w'], st')" by (auto simp: cleanPool_def)
    from "1.IH" [OF True r [symmetric] this] True r show ?thesis by (simp add: spawn_go)
  qed
qed

lemma drive_clean:
  "cleanPool env fs0 p \<Longrightarrow> cleanPool env fs0 (drive env sched k p)"
proof (induction env sched k p rule: drive.induct)
  case (1 env sched k ws st)
  show ?case
  proof (cases "suspended ws = []")
    case True
    with "1.prems" show ?thesis by (simp add: drive_stop)
  next
    case False
    let ?j = "suspended ws ! (sched k mod length (suspended ws))"
    obtain w' st' where r: "resume env (ws ! ?j) st = (w', st')"
      by (cases "resume env (ws ! ?j) st")
    from suspended_pick [OF False, of "sched k"] have j: "?j < length ws" by simp
    with "1.prems" have "cleanWorker env (ws ! ?j)" by (simp add: cleanPool_def)
    from resume_clean [OF r this, of fs0] "1.prems"
    have c: "cleanFiles env fs0 (files st')" "cleanWorker env w'" by (simp_all add: cleanPool_def)
    have "cleanPool env fs0 (ws[?j := w'], st')"
      unfolding cleanPool_def using c "1.prems"
      by (auto simp: cleanPool_def dest!: set_update_subset_insert [THEN subsetD])
    from "1.IH" [OF False refl r [symmetric] this] False r show ?thesis
      by (simp add: drive_go [where sched = sched and k = k, OF False r refl])
  qed
qed

lemma downloadCharts_run_clean:
  "cleanFiles env fs (files (snd (downloadCharts_run env sched urls fs)))"
proof -
  have "cleanPool env fs ([], initialState urls fs)"
    by (simp add: cleanPool_def cleanFiles_def initialState_def)
  from drive_clean [OF spawn_clean [OF this]] show ?thesis
    by (simp add: downloadCharts_run_def cleanPool_def)
qed

lemma downloadFile_afterFetch_Inr:
  "downloadFile_afterFetch x = Inr r \<Longrightarrow>
   x = Inr r \<and> ok r \<and> \<not> includesStr (orElse (contentType r) []) ''text/html''"
  by (auto simp: downloadFile_afterFetch_def split: sum.splits if_splits)

section \<open>One entry on its own cache path\<close>
















lemma upt_attempts: "[1..<Suc 1] = [1::nat]" "[1..<Suc 2] = [1, 2::nat]" "[1..<Suc 3] = [1, 2, 3::nat]"
  by (simp_all add: upt_rec)















section \<open>Every path returned is backed\<close>




lemma backedState_queue [simp]:
  "backedState env urls fs (st\<lparr>queue := q\<rparr>) = backedState env urls fs st"
  by (simp add: backedState_def)

lemma backedState_log [simp]:
  "backedState env urls fs (st\<lparr>fetchLog := l\<rparr>) = backedState env urls fs st"
  by (simp add: backedState_def)













section \<open>The batch of four, run\<close>


lemma batch_log:
  "fetchLog (snd (downloadCharts_run batchEnv roundRobin batchUrls Map.empty))
     = [(0, 1), (3, 1), (3, 2), (3, 3)]"
  by code_simp



section \<open>Evaluating a run of the pool step by step\<close>

lemma dup_paths:
  "localPathOf (dupEnv ok1) ''http://p/a.png'' = ''/cache/httppapng0000000.png''"
  "localPathOf (dupEnv ok1) ''http://p/b.png'' = ''/cache/httppbpng0000000.png''"
  by (cases ok1; code_simp)+

lemma dup_valid:
  "startsWith ''http://p/a.png'' ''http''" "startsWith ''http://p/b.png'' ''http''"
  by code_simp+

lemma served:
  "downloadFile_afterFetch (Inr pngImage) = Inr pngImage"
  "downloadFile_afterFetch (Inr htmlLoginPage) = Inl HtmlInsteadOfImage"
  by code_simp+

lemma suspended_two:
  "suspended [a, b]
     = (if a \<noteq> WorkerDone then [0] else []) @ (if b \<noteq> WorkerDone then [1] else [])"
  by (simp add: suspended_def upt_rec numeral_2_eq_2)

lemma pngImage_body: "length (body pngImage) = 1024"
  by (simp add: pngImage_def)

lemmas pool_eval = downloadCharts_def downloadCharts_run_def initialState_def spawn.simps
  drive.simps worker_def startItem_def cacheCheck_def existsSync_def statSync_size_def
  unlinkSync_def writeFileSync_def callDownloadFile_def attemptFailed_def forLoop_def
  finishItem_def onDownloaded_def setResult_def downloadFile_afterBody_def
  downloadFile_request_def MIN_IMAGE_SIZE_def concurrency_def Let_def suspended_two

section \<open>The batch of four, entry by entry\<close>






section \<open>Facts about the private operations\<close>

lemma keepsI: "(\<And>s r s'. m s = (r, s') \<Longrightarrow> f s' = f s) \<Longrightarrow> keeps f m"
  unfolding keeps_def by (metis prod.collapse)

lemma keepsD: "keeps f m \<Longrightarrow> m s = (r, s') \<Longrightarrow> f s' = f s"
  unfolding keeps_def by (metis snd_conv)

lemma keeps_bindE:
  assumes "keeps f m" "\<And>v. keeps f (g v)"
  shows "keeps f (bindE m g)"
proof (rule keepsI)
  fix s r s' assume run: "bindE m g s = (r, s')"
  obtain r1 s1 where m: "m s = (r1, s1)" by (cases "m s")
  from keepsD [OF assms(1) m] have f1: "f s1 = f s" .
  show "f s' = f s"
  proof (cases r1)
    case (Inl e)
    with run m f1 show ?thesis by (simp add: bindE_def)
  next
    case (Inr v)
    with run m have "g v s1 = (r, s')" by (simp add: bindE_def)
    from keepsD [OF assms(2) this] f1 show ?thesis by simp
  qed
qed

lemma keeps_returnE [simp]: "keeps f (returnE v)"
  by (simp add: keeps_def returnE_def)

lemma keeps_if:
  "keeps f m \<Longrightarrow> keeps f n \<Longrightarrow> keeps f (if b then m else n)"
  by simp

lemma apart_fetchCount [simp]: "apart fetchCount"
  by (simp add: apart_def)

lemma apart_lock [simp]: "apart lock"
  by (simp add: apart_def)

lemma keeps_executeJavaScript: "apart f \<Longrightarrow> keeps f (executeJavaScript env sc)"
  by (auto simp: keeps_def apart_def executeJavaScript_def split: prod.splits)

lemma apart_delay: "apart f \<Longrightarrow> f (delay ms s) = f s"
  by (simp add: apart_def delay_def)

lemma keeps_pause: "apart f \<Longrightarrow> keeps f (pause ms)"
  by (simp add: keeps_def pause_def apart_delay)

lemma keeps_ensureSearchPage: "apart f \<Longrightarrow> keeps f (ensureSearchPage env)"
proof (rule keepsI)
  fix s r s' assume a: "apart f" and run: "ensureSearchPage env s = (r, s')"
  have k: "keeps f (bindE (executeJavaScript env Navigate) (\<lambda>_ s1.
          pause 3000 (s1\<lparr>now := now s1 + min 15000 (loadTime env (evals s1))\<rparr>)))"
    by (rule keeps_bindE [OF keeps_executeJavaScript [OF a]])
       (use a in \<open>simp add: keeps_def pause_def apart_delay, simp add: apart_def\<close>)
  from run keepsD [OF k] show "f s' = f s"
    by (auto simp: ensureSearchPage_def split: if_splits)
qed

lemma waitForConditionLoop_keeps:
  assumes exec: "\<And>s r s'. executeJavaScript env c s = (r, s') \<Longrightarrow> f s' = f s"
    and sleep: "\<And>s ms. f (delay ms s) = f s"
  shows "f (snd (waitForConditionLoop env c mx i start s)) = f s"
  using exec sleep
proof (induction env c mx i start s rule: waitForConditionLoop.induct)
  case (1 env' c' mx i start s)
  note exec' = "1.prems"(1) and sleep' = "1.prems"(2)
  show ?case
  proof (cases "now s - start < mx")
    case False
    then show ?thesis by (subst waitForConditionLoop.simps) simp
  next
    case True
    obtain r s1 where e: "executeJavaScript env' c' s = (r, s1)"
      by (cases "executeJavaScript env' c' s")
    from exec' [OF e] have f1: "f s1 = f s" .
    show ?thesis
    proof (cases r)
      case (Inl err)
      from "1.IH"(1) [OF True e [symmetric] Inl exec' sleep'] f1 True e Inl show ?thesis
        by (subst waitForConditionLoop.simps) (simp add: sleep')
    next
      case (Inr v)
      show ?thesis
      proof (cases "truthy v")
        case t: True
        with f1 True e Inr show ?thesis by (subst waitForConditionLoop.simps) simp
      next
        case f: False
        from "1.IH"(2) [OF True e [symmetric] Inr f exec' sleep'] f1 True e Inr f show ?thesis
          by (subst waitForConditionLoop.simps) (simp add: sleep')
      qed
    qed
  qed
qed

lemma keeps_waitForConditionLoop:
  "apart f \<Longrightarrow> f (snd (waitForConditionLoop env c mx i start s)) = f s"
  by (rule waitForConditionLoop_keeps)
     (auto dest: keepsD [OF keeps_executeJavaScript] simp: apart_delay)

lemma keeps_waitForCondition:
  assumes "apart f"
  shows "keeps f (\<lambda>s. case waitForCondition env c mx i s of (loaded, s1) \<Rightarrow> (Inr loaded, s1))"
proof (rule keepsI)
  fix s r s'
  assume "(case waitForCondition env c mx i s of (loaded, s1) \<Rightarrow> (Inr loaded, s1)) = (r, s')"
  then have "s' = snd (waitForConditionLoop env c mx i (now s) s)"
    by (auto simp: waitForCondition_def split: prod.splits)
  with keeps_waitForConditionLoop [OF assms] show "f s' = f s" by simp
qed

lemma executeJavaScript_now:
  "executeJavaScript env sc s = (r, s') \<Longrightarrow> now s \<le> now s'"
  by (auto simp: executeJavaScript_def split: prod.splits)

lemma delay_now: "now (delay ms s) = now s + max 1 ms"
  by (simp add: delay_def)

lemma executeJavaScript_log:
  "executeJavaScript env sc s = (r, s') \<Longrightarrow> scriptLog s' = scriptLog s @ [(sc, r)]"
  by (auto simp: executeJavaScript_def split: prod.splits)

lemma delay_log [simp]: "scriptLog (delay ms s) = scriptLog s"
  by (simp add: delay_def)

text \<open>The three ways a round of the poll can go.\<close>

lemma pollOnce_cases:
  assumes "pollOnce env m start l k s = (out, s')"
  obtains
    (skip) r where "executeJavaScript env ReadArrayLength s = (r, s')" "\<not> positive r"
      "out = Continue l k"
  | (changed) c where "executeJavaScript env ReadArrayLength s = (Inr c, s')" "gt0 c" "c \<noteq> l"
      "out = Continue c 0"
  | (same) "executeJavaScript env ReadArrayLength s = (Inr l, s')" "gt0 l"
      "\<not> (requiredStableChecks \<le> k + 1 \<and> m \<le> now s' - start)" "out = Continue l (k + 1)"
  | (thrown) s1 e where "executeJavaScript env ReadArrayLength s = (Inr l, s1)" "gt0 l"
      "requiredStableChecks \<le> k + 1" "m \<le> now s1 - start"
      "executeJavaScript env ReadArrayLength (delay 1500 s1) = (Inl e, s')" "out = Continue l (k + 1)"
  | (grown) s1 c where "executeJavaScript env ReadArrayLength s = (Inr l, s1)" "gt0 l"
      "requiredStableChecks \<le> k + 1" "m \<le> now s1 - start"
      "executeJavaScript env ReadArrayLength (delay 1500 s1) = (Inr c, s')" "c \<noteq> l"
      "out = Continue c 0"
  | (confirmed) s1 where "executeJavaScript env ReadArrayLength s = (Inr l, s1)" "gt0 l"
      "requiredStableChecks \<le> k + 1" "m \<le> now s1 - start"
      "executeJavaScript env ReadArrayLength (delay 1500 s1) = (Inr l, s')" "out = Return l"
proof -
  obtain r s1 where e1: "executeJavaScript env ReadArrayLength s = (r, s1)"
    by (cases "executeJavaScript env ReadArrayLength s")
  show thesis
  proof (cases r)
    case (Inl e)
    with assms e1 skip [of r] show ?thesis by (simp add: pollOnce_def)
  next
    case (Inr c)
    show ?thesis
    proof (cases "gt0 c")
      case False
      with assms e1 Inr skip [of r] show ?thesis by (simp add: pollOnce_def)
    next
      case pos: True
      show ?thesis
      proof (cases "c = l")
        case False
        with assms e1 Inr pos changed [of c] show ?thesis by (simp add: pollOnce_def)
      next
        case eq: True
        show ?thesis
        proof (cases "requiredStableChecks \<le> k + 1 \<and> m \<le> now s1 - start")
          case False
          with assms e1 Inr pos eq same show ?thesis by (auto simp: pollOnce_def Let_def)
        next
          case True
          obtain r2 s2 where e2: "executeJavaScript env ReadArrayLength (delay 1500 s1) = (r2, s2)"
            by (cases "executeJavaScript env ReadArrayLength (delay 1500 s1)")
          show ?thesis
          proof (cases r2)
            case (Inl e)
            with assms e1 e2 Inr pos eq True thrown [of s1 e] show ?thesis
              by (simp add: pollOnce_def Let_def)
          next
            case r2: (Inr c2)
            show ?thesis
            proof (cases "c2 = l")
              case True
              with assms e1 e2 Inr pos eq r2 \<open>requiredStableChecks \<le> k + 1 \<and> m \<le> now s1 - start\<close>
                confirmed [of s1] show ?thesis
                by (simp add: pollOnce_def Let_def)
            next
              case False
              with assms e1 e2 Inr pos eq r2 True grown [of s1 c2] show ?thesis
                by (simp add: pollOnce_def Let_def)
            qed
          qed
        qed
      qed
    qed
  qed
qed

lemma pollOnce_keeps:
  assumes "apart f" "pollOnce env m start l k s = (out, s')"
  shows "f s' = f s"
  using assms(2)
  by (cases rule: pollOnce_cases)
     (auto dest!: keepsD [OF keeps_executeJavaScript [OF assms(1)]] simp: apart_delay [OF assms(1)])

lemma pollOnce_now:
  assumes "pollOnce env m start l k s = (out, s')"
  shows "now s \<le> now s'"
  using assms
  by (cases rule: pollOnce_cases) (auto dest!: executeJavaScript_now simp: delay_now)

lemma waitLoop_keeps:
  "apart f \<Longrightarrow> f (snd (waitLoop env mx m start l k s)) = f s"
proof (induction env mx m start l k s rule: waitLoop.induct)
  case (1 env mx m start l k s)
  show ?case
  proof (cases "now s - start < mx")
    case False
    obtain r s1 where e: "executeJavaScript env ReadArrayLength s = (r, s1)"
      by (cases "executeJavaScript env ReadArrayLength s")
    from keepsD [OF keeps_executeJavaScript [OF "1.prems"] e] False e show ?thesis
      by (subst waitLoop.simps) (auto split: sum.splits)
  next
    case True
    obtain out s1 where p: "pollOnce env m start l k s = (out, s1)"
      by (cases "pollOnce env m start l k s")
    note f1 = pollOnce_keeps [OF "1.prems" p]
    show ?thesis
    proof (cases out)
      case (Return c)
      with True p f1 show ?thesis by (subst waitLoop.simps) simp
    next
      case (Continue l' k')
      from "1.IH" [OF True p [symmetric] Continue "1.prems"] True p Continue f1 show ?thesis
        by (subst waitLoop.simps) (simp add: apart_delay [OF "1.prems"])
    qed
  qed
qed

text \<open>When the wait hands back a length, and how late.\<close>

lemma waitLoop_timing:
  assumes "start \<le> now s" "waitLoop env mx m start l k s = (Inr (how, c), s')"
  shows "(how = TimedOut \<longrightarrow> start + mx \<le> now s')
       \<and> (how = Confirmed \<longrightarrow> start + m + 1500 \<le> now s')"
  using assms
proof (induction env mx m start l k s rule: waitLoop.induct)
  case (1 env mx m start l k s)
  show ?case
  proof (cases "now s - start < mx")
    case False
    obtain r s1 where e: "executeJavaScript env ReadArrayLength s = (r, s1)"
      by (cases "executeJavaScript env ReadArrayLength s")
    from "1.prems"(2) False e have "how = TimedOut" "s' = s1"
      by (subst (asm) waitLoop.simps, auto split: sum.splits if_splits)+
    with executeJavaScript_now [OF e] False "1.prems"(1) show ?thesis by simp
  next
    case True
    obtain out s1 where p: "pollOnce env m start l k s = (out, s1)"
      by (cases "pollOnce env m start l k s")
    show ?thesis
    proof (cases out)
      case (Return c')
      with "1.prems"(2) True p have h: "how = Confirmed" "s' = s1"
        by (subst (asm) waitLoop.simps, simp)+
      from p Return have "start + m + 1500 \<le> now s1"
      proof (cases rule: pollOnce_cases)
        case (confirmed s0)
        from executeJavaScript_now [OF confirmed(1)] "1.prems"(1) confirmed(4)
        have "start + m \<le> now s0" by simp
        with executeJavaScript_now [OF confirmed(5)] show ?thesis by (simp add: delay_now)
      qed simp_all
      with h show ?thesis by simp
    next
      case (Continue l' k')
      from "1.prems"(2) True p Continue
      have "waitLoop env mx m start l' k' (delay 500 s1) = (Inr (how, c), s')"
        by (subst (asm) waitLoop.simps) simp
      moreover from pollOnce_now [OF p] "1.prems"(1) have "start \<le> now (delay 500 s1)"
        by (simp add: delay_now)
      ultimately show ?thesis using "1.IH" [OF True p [symmetric] Continue] by simp
    qed
  qed
qed

lemma labelWaitLoop_keeps:
  "apart f \<Longrightarrow> f (snd (labelWaitLoop env n start s)) = f s"
proof (induction env n start s rule: labelWaitLoop.induct)
  case (1 env n start s)
  show ?case
  proof (cases "now s - start < 8000")
    case False
    then show ?thesis by (subst labelWaitLoop.simps) simp
  next
    case True
    obtain r s1 where e: "executeJavaScript env CountLabels s = (r, s1)"
      by (cases "executeJavaScript env CountLabels s")
    from keepsD [OF keeps_executeJavaScript [OF "1.prems"] e] have f1: "f s1 = f s" .
    show ?thesis
    proof (cases r)
      case (Inl err)
      with True e f1 show ?thesis by (subst labelWaitLoop.simps) simp
    next
      case (Inr c)
      show ?thesis
      proof (cases "geNum c n \<or> (gt0 c \<and> now s1 - start > 4000)")
        case t: True
        with True e Inr f1 show ?thesis by (subst labelWaitLoop.simps) auto
      next
        case f: False
        from f have a: "\<not> geNum c n" and b: "\<not> (gt0 c \<and> 4000 < now s1 - start)" by auto
        from "1.IH" [OF True e [symmetric] Inr a b "1.prems"] True e Inr f f1 show ?thesis
          by (subst labelWaitLoop.simps) (auto simp: apart_delay [OF "1.prems"])
      qed
    qed
  qed
qed

lemma keeps_selectProduct: "apart f \<Longrightarrow> keeps f (selectProduct env productId)"
  unfolding selectProduct_def
  by (intro keeps_bindE keeps_if keeps_returnE keeps_ensureSearchPage keeps_executeJavaScript
        keeps_pause)

lemma keeps_extractCharts: "apart f \<Longrightarrow> keeps f (extractCharts env lastCount)"
  unfolding extractCharts_def
  by (intro keeps_bindE keeps_executeJavaScript)
     (auto simp: keeps_def labelWaitLoop_keeps JSON_parse_charts_def split: jsval.splits)

lemma waitForStableArray_exit_fetchCount:
  "fetchCount (snd (waitForStableArray_exit env s)) = Suc (fetchCount s)"
  by (simp add: waitForStableArray_exit_def Let_def waitLoop_keeps)

lemma waitForStableArray_fetchCount:
  "fetchCount (snd (waitForStableArray env s)) = Suc (fetchCount s)"
  using waitForStableArray_exit_fetchCount [of env s]
  by (auto simp: waitForStableArray_def split: prod.splits sum.splits)

lemma waitForStableArray_lock:
  "lock (snd (waitForStableArray env s)) = lock s"
proof -
  have "lock (snd (waitForStableArray_exit env s)) = lock s"
    by (simp add: waitForStableArray_exit_def Let_def waitLoop_keeps)
  then show ?thesis
    by (auto simp: waitForStableArray_def split: prod.splits sum.splits)
qed

lemma keeps_lock_waitForStableArray: "keeps lock (waitForStableArray env)"
  by (simp add: keeps_def waitForStableArray_lock)

lemma keeps_fallbackWait: "keeps lock (fallbackWait env lastCount)"
  unfolding fallbackWait_def
  by (intro keeps_if keeps_bindE keeps_returnE keeps_executeJavaScript keeps_pause
        keeps_lock_waitForStableArray apart_lock)

lemma keeps_lock_fetchChartUrls_impl: "keeps lock (fetchChartUrls_impl env productId)"
  unfolding fetchChartUrls_impl_def
  by (intro keeps_bindE keeps_if keeps_returnE keeps_selectProduct keeps_extractCharts
        keeps_lock_waitForStableArray keeps_fallbackWait apart_lock)

lemma keeps_JSON_parse_catalog: "keeps f (JSON_parse_catalog t j)"
  by (simp add: keeps_def JSON_parse_catalog_def split: jsval.splits)

lemma keeps_lock_fetchProductCatalog_impl: "keeps lock (fetchProductCatalog_impl env t)"
  unfolding fetchProductCatalog_impl_def
  by (intro keeps_bindE keeps_ensureSearchPage keeps_executeJavaScript keeps_waitForCondition
        keeps_pause keeps_JSON_parse_catalog apart_lock)

lemma keeps_lock_ensureProductType_impl: "keeps lock (ensureProductType_impl env t)"
  unfolding ensureProductType_impl_def
  by (intro keeps_bindE keeps_if keeps_returnE keeps_ensureSearchPage keeps_executeJavaScript
        keeps_waitForCondition keeps_pause apart_lock)

text \<open>A public operation that finds the lock free, and one that finds it taken.\<close>

lemma underLock_free:
  assumes free: "\<not> mutexLocked (lock s)" and keeps: "keeps lock operation"
  shows "\<exists>r s'. underLock caller operation s = (Settled r, s')
           \<and> operation (s\<lparr>lock := (lock s)\<lparr>mutexLocked := True\<rparr>\<rparr>)
               = (r, s'\<lparr>lock := (lock s)\<lparr>mutexLocked := True\<rparr>\<rparr>)
           \<and> lock s' = snd (releaseLock ((lock s)\<lparr>mutexLocked := True\<rparr>))"
proof -
  let ?s0 = "s\<lparr>lock := (lock s)\<lparr>mutexLocked := True\<rparr>\<rparr>"
  obtain r s1 where op: "operation ?s0 = (r, s1)" by (cases "operation ?s0")
  from keepsD [OF keeps op] have l1: "lock s1 = (lock s)\<lparr>mutexLocked := True\<rparr>" by simp
  then have "s1\<lparr>lock := (lock s)\<lparr>mutexLocked := True\<rparr>\<rparr> = s1" by (cases s1) simp
  with free op l1 show ?thesis
    by (cases r) (simp_all add: underLock_def acquireLock_def)
qed

lemma underLock_taken:
  "mutexLocked (lock s) \<Longrightarrow>
   underLock caller operation s
     = (Parked, s\<lparr>lock := (lock s)\<lparr>mutexQueue := mutexQueue (lock s) @ [caller]\<rparr>\<rparr>)"
  by (simp add: underLock_def acquireLock_def)

lemma reloadCount_exec:
  "executeJavaScript env sc s = (r, s') \<Longrightarrow>
   reloadCount s' = reloadCount s + (if isSetArea (sc, r) then 1 else 0)"
  by (auto simp: executeJavaScript_def reloadCount_def split: prod.splits)

lemma reloadCount_delay [simp]: "reloadCount (delay ms s) = reloadCount s"
  by (simp add: reloadCount_def delay_def)

lemma reloadCount_now [simp]: "reloadCount (s\<lparr>now := x\<rparr>) = reloadCount s"
  by (simp add: reloadCount_def)

lemma keeps_reloadCount_exec:
  "(\<And>v. sc \<noteq> SetArea v) \<Longrightarrow> keeps reloadCount (executeJavaScript env sc)"
  by (rule keepsI, drule reloadCount_exec, cases sc) auto

lemma keeps_reloadCount_pause: "keeps reloadCount (pause ms)"
  by (simp add: keeps_def pause_def)

lemma keeps_reloadCount_ensureSearchPage: "keeps reloadCount (ensureSearchPage env)"
proof (rule keepsI)
  fix s r s' assume run: "ensureSearchPage env s = (r, s')"
  have k: "keeps reloadCount (bindE (executeJavaScript env Navigate) (\<lambda>_ s1.
          pause 3000 (s1\<lparr>now := now s1 + min 15000 (loadTime env (evals s1))\<rparr>)))"
    by (rule keeps_bindE [OF keeps_reloadCount_exec]) (simp_all add: keeps_def pause_def)
  from run keepsD [OF k] show "reloadCount s' = reloadCount s"
    by (auto simp: ensureSearchPage_def split: if_splits)
qed

lemma keeps_reloadCount_waitForCondition:
  "keeps reloadCount
     (\<lambda>s. case waitForCondition env ListLoaded mx i s of (loaded, s1) \<Rightarrow> (Inr loaded, s1))"
proof (rule keepsI)
  fix s r s'
  assume "(case waitForCondition env ListLoaded mx i s of (loaded, s1) \<Rightarrow> (Inr loaded, s1)) = (r, s')"
  then have "s' = snd (waitForConditionLoop env ListLoaded mx i (now s) s)"
    by (auto simp: waitForCondition_def split: prod.splits)
  moreover have "reloadCount (snd (waitForConditionLoop env ListLoaded mx i (now s) s)) = reloadCount s"
  proof (rule waitForConditionLoop_keeps)
    fix s r s' assume "executeJavaScript env ListLoaded s = (r, s')"
    from reloadCount_exec [OF this] show "reloadCount s' = reloadCount s" by simp
  qed simp
  ultimately show "reloadCount s' = reloadCount s" by simp
qed

text \<open>What \<open>_ensureProductType\<close> does after the read, when the value differs.\<close>

lemma reload_once:
  "reloadCount (snd (
     bindE (executeJavaScript env (SetArea v)) (\<lambda>_.
     bindE (\<lambda>s. case waitForCondition env ListLoaded 8000 500 s of (loaded, s1) \<Rightarrow> (Inr loaded, s1)) (\<lambda>_.
     pause 500)) s)) = reloadCount s + 1"
proof -
  obtain r s1 where e: "executeJavaScript env (SetArea v) s = (r, s1)"
    by (cases "executeJavaScript env (SetArea v) s")
  from reloadCount_exec [OF e] have c1: "reloadCount s1 = reloadCount s + 1" by simp
  have k: "keeps reloadCount
     (bindE (\<lambda>s. case waitForCondition env ListLoaded 8000 500 s of (loaded, s1) \<Rightarrow> (Inr loaded, s1))
        (\<lambda>_. pause 500))"
    by (intro keeps_bindE keeps_reloadCount_waitForCondition keeps_reloadCount_pause)
  show ?thesis
  proof (cases r)
    case (Inl err)
    with e c1 show ?thesis by (simp add: bindE_def)
  next
    case (Inr x)
    with e c1 k show ?thesis by (simp add: bindE_def keeps_def split: prod.splits sum.splits)
  qed
qed

lemma ensureProductType_reloads:
  "reloadCount (snd (ensureProductType_impl env productType s)) \<le> reloadCount s + 1"
proof -
  obtain r1 s1 where p: "ensureSearchPage env s = (r1, s1)" by (cases "ensureSearchPage env s")
  from keepsD [OF keeps_reloadCount_ensureSearchPage p] have c1: "reloadCount s1 = reloadCount s" .
  show ?thesis
  proof (cases r1)
    case (Inl e)
    with p c1 show ?thesis by (simp add: ensureProductType_impl_def bindE_def)
  next
    case (Inr u)
    obtain r2 s2 where e: "executeJavaScript env ReadArea s1 = (r2, s2)"
      by (cases "executeJavaScript env ReadArea s1")
    from reloadCount_exec [OF e] have c2: "reloadCount s2 = reloadCount s1" by simp
    show ?thesis
    proof (cases r2)
      case (Inl err)
      with p Inr e c1 c2 show ?thesis by (simp add: ensureProductType_impl_def bindE_def)
    next
      case r: (Inr cur)
      with p Inr e c1 c2 reload_once [of env "templateText (typeValueOf productType)" s2] show ?thesis
        by (simp add: ensureProductType_impl_def bindE_def [of "ensureSearchPage env"]
              bindE_def [of "executeJavaScript env ReadArea"] returnE_def)
    qed
  qed
qed

lemma ensureProductType_reloads_exactly:
  assumes p: "ensureSearchPage env s = (Inr (), s1)"
    and e: "executeJavaScript env ReadArea s1 = (Inr cur, s2)"
  shows "reloadCount (snd (ensureProductType_impl env productType s))
           = reloadCount s + (if strictEquals cur (typeValueOf productType) then 0 else 1)"
proof -
  from keepsD [OF keeps_reloadCount_ensureSearchPage p] have c1: "reloadCount s1 = reloadCount s" .
  from reloadCount_exec [OF e] have c2: "reloadCount s2 = reloadCount s1" by simp
  from p e c1 c2 reload_once [of env "templateText (typeValueOf productType)" s2] show ?thesis
    by (simp add: ensureProductType_impl_def bindE_def [of "ensureSearchPage env"]
          bindE_def [of "executeJavaScript env ReadArea"] returnE_def)
qed

lemma ensureProductType_read_back:
  assumes p: "ensureSearchPage env s = (Inr (), s1)"
    and e: "executeJavaScript env ReadArea s1 = (Inr cur, s2)"
    and eq: "strictEquals cur (typeValueOf productType)"
  shows "ensureProductType_impl env productType s = (Inr (), s2)"
  using assms by (simp add: ensureProductType_impl_def bindE_def returnE_def)

text \<open>The ceiling of the wait, and the poll round case by case.\<close>

lemma executeJavaScript_upper:
  assumes "\<forall>k. fst (evalJS env k) \<le> L" "executeJavaScript env sc s = (r, s')"
  shows "now s' \<le> now s + L"
proof -
  obtain lat v where e: "evalJS env (evals s) = (lat, v)" by (cases "evalJS env (evals s)")
  with assms(1) [rule_format, of "evals s"] have "lat \<le> L" by simp
  with assms(2) e show ?thesis by (auto simp: executeJavaScript_def)
qed

lemma pollOnce_upper:
  assumes b: "\<forall>k. fst (evalJS env k) \<le> L" and p: "pollOnce env m start l k s = (out, s')"
  shows "now s' \<le> now s + 2 * L + 1500"
  using p
proof (cases rule: pollOnce_cases)
  case (thrown s1 e)
  from executeJavaScript_upper [OF b thrown(1)] executeJavaScript_upper [OF b thrown(5)]
  show ?thesis by (simp add: delay_now)
next
  case (grown s1 c)
  from executeJavaScript_upper [OF b grown(1)] executeJavaScript_upper [OF b grown(5)]
  show ?thesis by (simp add: delay_now)
next
  case (confirmed s1)
  from executeJavaScript_upper [OF b confirmed(1)] executeJavaScript_upper [OF b confirmed(5)]
  show ?thesis by (simp add: delay_now)
qed (auto dest!: executeJavaScript_upper [OF b])

lemma waitLoop_upper:
  assumes "\<forall>k. fst (evalJS env k) \<le> L" "waitLoop env mx m start l k s = (r, s')"
  shows "now s' \<le> max (now s) (start + mx + 2 * L + 2000) + L"
  using assms
proof (induction env mx m start l k s rule: waitLoop.induct)
  case (1 env mx m start l k s)
  note b = "1.prems"(1)
  show ?case
  proof (cases "now s - start < mx")
    case False
    obtain r1 s1 where e: "executeJavaScript env ReadArrayLength s = (r1, s1)"
      by (cases "executeJavaScript env ReadArrayLength s")
    from "1.prems"(2) False e have "s' = s1"
      by (subst (asm) waitLoop.simps) (auto split: sum.splits if_splits)
    with executeJavaScript_upper [OF b e] show ?thesis by simp
  next
    case True
    obtain out s1 where p: "pollOnce env m start l k s = (out, s1)"
      by (cases "pollOnce env m start l k s")
    from pollOnce_upper [OF b p] True have up: "now s1 + 500 \<le> start + mx + 2 * L + 2000"
      by simp
    show ?thesis
    proof (cases out)
      case (Return c')
      with "1.prems"(2) True p have "s' = s1" by (subst (asm) waitLoop.simps) simp
      with up show ?thesis by simp
    next
      case (Continue l' k')
      from "1.prems"(2) True p Continue
      have "waitLoop env mx m start l' k' (delay 500 s1) = (r, s')"
        by (subst (asm) waitLoop.simps) simp
      from "1.IH" [OF True p [symmetric] Continue b this] up show ?thesis
        by (simp add: delay_now)
    qed
  qed
qed

lemma waitForStableArray_exit_upper:
  assumes "\<forall>k. fst (evalJS env k) \<le> L" "waitForStableArray_exit env s = (r, s')"
  shows "now s' \<le> now s + (if fetchCount s < 2 then 30000 else 20000) + 3 * L + 2000"
proof -
  let ?s0 = "s\<lparr>fetchCount := fetchCount s + 1\<rparr>"
  let ?mx = "if fetchCount s < 2 then 30000 else 20000"
  let ?m = "if fetchCount s < 2 then 4000 else 2000"
  from assms(2) have "waitLoop env ?mx ?m (now s) (JNum 0) 0 ?s0 = (r, s')"
    by (auto simp: waitForStableArray_exit_def Let_def split: if_splits)
  from waitLoop_upper [OF assms(1) this] show ?thesis by (simp split: if_splits)
qed

lemma waitLoop_out_of_time:
  "\<not> now t - start < mx \<Longrightarrow>
   waitLoop env mx m start l k t
     = (case executeJavaScript env ReadArrayLength t of
          (Inl e, t') \<Rightarrow> (Inl e, t')
        | (Inr finalCount, t') \<Rightarrow> (Inr (TimedOut, if gt0 finalCount then finalCount else JNum 0), t'))"
  by (subst waitLoop.simps) (auto split: prod.splits sum.splits)

lemma waitLoop_in_time:
  "now t - start < mx \<Longrightarrow>
   waitLoop env mx m start l k t
     = (case pollOnce env m start l k t of
          (Return c, t1) \<Rightarrow> (Inr (Confirmed, c), t1)
        | (Continue l' k', t1) \<Rightarrow> waitLoop env mx m start l' k' (delay 500 t1))"
  by (subst waitLoop.simps) simp

lemma pollOnce_skip:
  "executeJavaScript env ReadArrayLength t = (r, t') \<Longrightarrow> \<not> positive r \<Longrightarrow>
   pollOnce env m start l k t = (Continue l k, t')"
  by (cases r) (simp_all add: pollOnce_def)

lemma pollOnce_changed:
  "executeJavaScript env ReadArrayLength t = (Inr c, t') \<Longrightarrow> gt0 c \<Longrightarrow> c \<noteq> l \<Longrightarrow>
   pollOnce env m start l k t = (Continue c 0, t')"
  by (simp add: pollOnce_def)

lemma pollOnce_same:
  "executeJavaScript env ReadArrayLength t = (Inr l, t') \<Longrightarrow> gt0 l \<Longrightarrow>
   \<not> (requiredStableChecks \<le> k + 1 \<and> m \<le> now t' - start) \<Longrightarrow>
   pollOnce env m start l k t = (Continue l (k + 1), t')"
  by (auto simp: pollOnce_def Let_def)

lemma pollOnce_thrown:
  "executeJavaScript env ReadArrayLength t = (Inr l, s1) \<Longrightarrow> gt0 l \<Longrightarrow>
   requiredStableChecks \<le> k + 1 \<Longrightarrow> m \<le> now s1 - start \<Longrightarrow>
   executeJavaScript env ReadArrayLength (delay 1500 s1) = (Inl e, t') \<Longrightarrow>
   pollOnce env m start l k t = (Continue l (k + 1), t')"
  by (simp add: pollOnce_def)

section \<open>The slow pages, run\<close>

lemmas page_eval =
  bindE_def returnE_def pause_def delay_def executeJavaScript_def ensureSearchPage_def
  waitForStableArray_def waitForStableArray_exit_def waitLoop.simps pollOnce_def
  selectProduct_def fallbackWait_def fetchChartUrls_impl_def

lemma emptyPage_cold_wait:
  "waitForStableArray_exit emptyPage (serviceWith 0 m) =
     (Inr (TimedOut, JNum 0),
      \<lparr>now = 76000, evals = 3, fetchCount = 1, lock = m,
         scriptLog = [(ReadArrayLength, Inr (JNum 0)), (ReadArrayLength, Inr (JNum 0)),
                      (ReadArrayLength, Inr (JNum 0))]\<rparr>)"
  by (simp add: page_eval emptyPage_def serviceWith_def)

lemma emptyPage_warm_wait:
  "waitForStableArray_exit emptyPage (serviceWith 2 m) =
     (Inr (TimedOut, JNum 0),
      \<lparr>now = 50500, evals = 2, fetchCount = 3, lock = m,
         scriptLog = [(ReadArrayLength, Inr (JNum 0)), (ReadArrayLength, Inr (JNum 0))]\<rparr>)"
  by (simp add: page_eval emptyPage_def serviceWith_def)

lemma growingPage_warm_wait:
  "waitForStableArray_exit growingPage (serviceWith 2 m) =
     (Inr (TimedOut, JNum 2),
      \<lparr>now = 50500, evals = 2, fetchCount = 3, lock = m,
         scriptLog = [(ReadArrayLength, Inr (JNum 1)), (ReadArrayLength, Inr (JNum 2))]\<rparr>)"
  by (simp add: page_eval growingPage_def serviceWith_def)

lemma emptyPage_select:
  "selectProduct emptyPage ''42'' (serviceWith 0 m) =
     (Inr (),
      \<lparr>now = 128000, evals = 5, fetchCount = 0, lock = m,
         scriptLog =
           [(ResetArray, Inr (JNum 0)), (SelectProduct ''42'', Inr (JNum 0)),
            (ReadSelected, Inr (JNum 0)), (SelectProduct ''42'', Inr (JNum 0)),
            (ReadSelected, Inr (JNum 0))]\<rparr>)"
  by (simp add: page_eval emptyPage_def serviceWith_def)

lemma emptyPage_first_wait:
  "waitForStableArray emptyPage
      \<lparr>now = 128000, evals = 5, fetchCount = 0, lock = m,
         scriptLog =
           [(ResetArray, Inr (JNum 0)), (SelectProduct ''42'', Inr (JNum 0)),
            (ReadSelected, Inr (JNum 0)), (SelectProduct ''42'', Inr (JNum 0)),
            (ReadSelected, Inr (JNum 0))]\<rparr> =
     (Inr (JNum 0),
      \<lparr>now = 204000, evals = 8, fetchCount = 1, lock = m,
         scriptLog =
           [(ResetArray, Inr (JNum 0)), (SelectProduct ''42'', Inr (JNum 0)),
            (ReadSelected, Inr (JNum 0)), (SelectProduct ''42'', Inr (JNum 0)),
            (ReadSelected, Inr (JNum 0)), (ReadArrayLength, Inr (JNum 0)),
            (ReadArrayLength, Inr (JNum 0)), (ReadArrayLength, Inr (JNum 0))]\<rparr>)"
  by (simp add: page_eval emptyPage_def)

lemma emptyPage_fallback:
  "executeJavaScript emptyPage Fallback
      \<lparr>now = 204000, evals = 8, fetchCount = 1, lock = m,
         scriptLog =
           [(ResetArray, Inr (JNum 0)), (SelectProduct ''42'', Inr (JNum 0)),
            (ReadSelected, Inr (JNum 0)), (SelectProduct ''42'', Inr (JNum 0)),
            (ReadSelected, Inr (JNum 0)), (ReadArrayLength, Inr (JNum 0)),
            (ReadArrayLength, Inr (JNum 0)), (ReadArrayLength, Inr (JNum 0))]\<rparr> =
     (Inr (JNum 0),
      \<lparr>now = 229000, evals = 9, fetchCount = 1, lock = m,
         scriptLog =
           [(ResetArray, Inr (JNum 0)), (SelectProduct ''42'', Inr (JNum 0)),
            (ReadSelected, Inr (JNum 0)), (SelectProduct ''42'', Inr (JNum 0)),
            (ReadSelected, Inr (JNum 0)), (ReadArrayLength, Inr (JNum 0)),
            (ReadArrayLength, Inr (JNum 0)), (ReadArrayLength, Inr (JNum 0)),
            (Fallback, Inr (JNum 0))]\<rparr>)"
  by (simp add: page_eval emptyPage_def)

lemma emptyPage_second_wait:
  "waitForStableArray emptyPage (delay 1000
      \<lparr>now = 229000, evals = 9, fetchCount = 1, lock = m,
         scriptLog =
           [(ResetArray, Inr (JNum 0)), (SelectProduct ''42'', Inr (JNum 0)),
            (ReadSelected, Inr (JNum 0)), (SelectProduct ''42'', Inr (JNum 0)),
            (ReadSelected, Inr (JNum 0)), (ReadArrayLength, Inr (JNum 0)),
            (ReadArrayLength, Inr (JNum 0)), (ReadArrayLength, Inr (JNum 0)),
            (Fallback, Inr (JNum 0))]\<rparr>) =
     (Inr (JNum 0),
      \<lparr>now = 306000, evals = 12, fetchCount = 2, lock = m,
         scriptLog =
           [(ResetArray, Inr (JNum 0)), (SelectProduct ''42'', Inr (JNum 0)),
            (ReadSelected, Inr (JNum 0)), (SelectProduct ''42'', Inr (JNum 0)),
            (ReadSelected, Inr (JNum 0)), (ReadArrayLength, Inr (JNum 0)),
            (ReadArrayLength, Inr (JNum 0)), (ReadArrayLength, Inr (JNum 0)),
            (Fallback, Inr (JNum 0)), (ReadArrayLength, Inr (JNum 0)),
            (ReadArrayLength, Inr (JNum 0)), (ReadArrayLength, Inr (JNum 0))]\<rparr>)"
  by (simp add: page_eval emptyPage_def)

lemma satellite_value: "typeValueOf ''SATELLITE'' = MappedString ''2''"
  by (simp add: typeValueOf_def typeValueMap_def orElse_def)

lemma constructor_value: "typeValueOf ''constructor'' = InheritedProperty ''constructor''"
  by (simp add: typeValueOf_def typeValueMap_def objectPrototypeKeys_def)

lemma stuckPage_first:
  "ensureProductType_impl stuckPage ''SATELLITE'' (serviceWith 0 m)
     = (Inr (),
        \<lparr>now = 27500, evals = 3, fetchCount = 0, lock = m,
           scriptLog = [(ReadArea, Inr (JStr ''1'')), (SetArea ''2'', Inr (JStr ''1'')),
                        (ListLoaded, Inr (JStr ''1''))]\<rparr>)"
  by (simp add: ensureProductType_impl_def satellite_value page_eval waitForCondition_def
        waitForConditionLoop.simps stuckPage_def serviceWith_def)

lemma stuckPage_second:
  "ensureProductType_impl stuckPage ''SATELLITE''
        \<lparr>now = 27500, evals = 3, fetchCount = 0, lock = m,
           scriptLog = [(ReadArea, Inr (JStr ''1'')), (SetArea ''2'', Inr (JStr ''1'')),
                        (ListLoaded, Inr (JStr ''1''))]\<rparr>
     = (Inr (),
        \<lparr>now = 55000, evals = 6, fetchCount = 0, lock = m,
           scriptLog = [(ReadArea, Inr (JStr ''1'')), (SetArea ''2'', Inr (JStr ''1'')),
                        (ListLoaded, Inr (JStr ''1'')),
                        (ReadArea, Inr (JStr ''1'')), (SetArea ''2'', Inr (JStr ''1'')),
                        (ListLoaded, Inr (JStr ''1''))]\<rparr>)"
  by (simp add: ensureProductType_impl_def satellite_value page_eval waitForCondition_def
        waitForConditionLoop.simps stuckPage_def)

section \<open>The mutex under concurrent callers\<close>

lemma blocks_snoc:
  "length ks = length g \<Longrightarrow> blocks (g @ [i]) (ks @ [k]) = blocks g ks @ replicate k i"
  by (simp add: blocks_def)

lemma blocks_touch:
  assumes "length ks = length g" "g \<noteq> []"
  shows "\<exists>ks'. length ks' = length g \<and> blocks g ks @ [last g] = blocks g ks'"
proof -
  from assms obtain g0 h where g: "g = g0 @ [h]" by (metis rev_exhaust)
  with assms obtain ks0 k where ks: "ks = ks0 @ [k]" "length ks0 = length g0"
    by (cases ks rule: rev_cases) auto
  have "blocks g ks @ [last g] = blocks g0 ks0 @ replicate (Suc k) h"
    using g ks by (simp add: blocks_snoc replicate_append_same)
  also have "\<dots> = blocks g (ks0 @ [Suc k])" using g ks by (simp add: blocks_snoc)
  finally show ?thesis using g ks by (intro exI [of _ "ks0 @ [Suc k]"]) simp
qed

lemma blocks_grant:
  assumes "length ks = length g"
  shows "\<exists>ks'. length ks' = length (g @ [j]) \<and> blocks g ks = blocks (g @ [j]) ks'"
  using assms by (intro exI [of _ "ks @ [0]"]) (simp add: blocks_snoc)

lemma sysOK_initial: "sysOK ops (initialSys ops)"
  by (simp add: sysOK_def initialSys_def blocks_def isInBody_def)

lemma sysOK_call:
  assumes ok: "sysOK ops s"
  shows "sysOK ops (step ops s (Call i))"
proof (cases "i < length (calls s) \<and> calls s ! i = NotCalled")
  case False
  with ok show ?thesis by auto
next
  case True
  with ok have i: "i < length ops" "i \<notin> set (callOrder s)" by (auto simp: sysOK_def)
  show ?thesis
  proof (cases "mutexLocked (mtx s)")
    case False
    with ok have q: "mutexQueue (mtx s) = []" by (simp add: sysOK_def)
    from ok obtain ks where ks: "length ks = length (grantOrder s)"
      "map fst (trace s) = blocks (grantOrder s) ks" by (auto simp: sysOK_def)
    from blocks_grant [OF ks(1), of i] ks(2)
    have tr: "\<exists>ks'. length ks' = length (grantOrder s @ [i])
               \<and> map fst (trace s) = blocks (grantOrder s @ [i]) ks'" by simp
    from ok True False i q tr show ?thesis
      unfolding sysOK_def
      by (simp add: acquireLock_def nth_list_update isInBody_def) auto
  next
    case locked: True
    from ok True locked i show ?thesis
      unfolding sysOK_def
      by (simp add: acquireLock_def nth_list_update isInBody_def) auto
  qed
qed


lemma sysOK_holder:
  assumes "sysOK ops s" "i < length (calls s)" "calls s ! i = InBody b"
  shows "mutexLocked (mtx s) \<and> grantOrder s \<noteq> [] \<and> i = last (grantOrder s) \<and> i < length ops"
  using assms unfolding sysOK_def by (auto simp: isInBody_def)

lemma sysOK_touch:
  assumes ok: "sysOK ops s" and i: "i < length (calls s)" "calls s ! i = InBody b"
    and p: "p \<in> set b"
  shows "sysOK ops (s\<lparr>trace := trace s @ [(i, p)]\<rparr>)"
proof -
  from sysOK_holder [OF ok i] have h: "grantOrder s \<noteq> []" "i = last (grantOrder s)" by simp_all
  from ok obtain ks where ks: "length ks = length (grantOrder s)"
    "map fst (trace s) = blocks (grantOrder s) ks" by (auto simp: sysOK_def)
  from blocks_touch [OF ks(1) h(1)] ks(2) h(2)
  have "\<exists>ks'. length ks' = length (grantOrder s)
          \<and> map fst (trace s) @ [i] = blocks (grantOrder s) ks'" by simp
  moreover from sysOK_holder [OF ok i] have il: "i < length ops" by simp
  from ok have "\<forall>i<length ops. \<forall>b. calls s ! i = InBody b \<longrightarrow> set b \<subseteq> set (opBody (ops ! i))"
    unfolding sysOK_def by blast
  with il i(2) p have "p \<in> set (opBody (ops ! i))" by blast
  ultimately show ?thesis using ok il unfolding sysOK_def by auto
qed

lemma sysOK_advance:
  assumes ok: "sysOK ops s" and i: "i < length (calls s)" "calls s ! i = InBody b"
    and sub: "set b' \<subseteq> set b"
  shows "sysOK ops (s\<lparr>calls := (calls s)[i := InBody b']\<rparr>)"
proof -
  from sysOK_holder [OF ok i] have h: "mutexLocked (mtx s)" "grantOrder s \<noteq> []"
    "i = last (grantOrder s)" "i < length ops" by simp_all
  from ok i have w: "i \<in> set (callOrder s)" "i \<notin> set (mutexQueue (mtx s))"
    unfolding sysOK_def by auto
  from ok have "\<forall>i<length ops. \<forall>b. calls s ! i = InBody b \<longrightarrow> set b \<subseteq> set (opBody (ops ! i))"
    unfolding sysOK_def by blast
  with h(4) i(2) sub have b: "set b' \<subseteq> set (opBody (ops ! i))" by blast
  from ok i h w sub b show ?thesis
    unfolding sysOK_def by (simp add: nth_list_update isInBody_def) auto
qed

lemma sysOK_finally:
  assumes ok: "sysOK ops s" and i: "i < length (calls s)" "calls s ! i = InBody b"
  shows "sysOK ops (finallyRelease ops i r s)"
proof -
  from sysOK_holder [OF ok i] have h: "mutexLocked (mtx s)" "grantOrder s \<noteq> []"
    "i = last (grantOrder s)" "i < length ops" by simp_all
  from ok i have w: "i \<in> set (callOrder s)" "i \<notin> set (mutexQueue (mtx s))"
    unfolding sysOK_def by auto
  show ?thesis
  proof (cases "mutexQueue (mtx s)")
    case Nil
    with ok i h w show ?thesis
      unfolding sysOK_def finallyRelease_def releaseLock_def
      by (simp add: nth_list_update isInBody_def) auto
  next
    case (Cons j rest)
    from ok Cons have j: "j < length ops" "j \<notin> set (grantOrder s)" "j \<notin> set rest" "j \<noteq> i"
      "distinct rest" "distinct (grantOrder s)" "set (grantOrder s) \<inter> set rest = {}"
      using h w unfolding sysOK_def by auto
    from ok obtain ks where ks: "length ks = length (grantOrder s)"
      "map fst (trace s) = blocks (grantOrder s) ks" by (auto simp: sysOK_def)
    from blocks_grant [OF ks(1), of j] ks(2)
    have tr: "\<exists>ks'. length ks' = length (grantOrder s @ [j])
               \<and> map fst (trace s) = blocks (grantOrder s @ [j]) ks'" by simp
    from ok i h w Cons j tr show ?thesis
      unfolding sysOK_def finallyRelease_def releaseLock_def
      by (simp add: nth_list_update isInBody_def) auto
  qed
qed

lemma sysOK_step:
  assumes ok: "sysOK ops s"
  shows "sysOK ops (step ops s e)"
proof (cases e)
  case (Call i)
  with sysOK_call [OF ok] show ?thesis by simp
next
  case (Touch i)
  with ok sysOK_touch [OF ok, of i] show ?thesis
    by (auto split: callState.splits list.splits)
next
  case (Finish i)
  have "sysOK ops (s\<lparr>calls := (calls s)[i := InBody (q # rest)]\<rparr>)"
    if "i < length (calls s)" "calls s ! i = InBody (p # q # rest)" for p q rest
    by (rule sysOK_advance [OF ok that]) auto
  with Finish ok sysOK_finally [OF ok] show ?thesis
    by (auto split: callState.splits list.splits)
next
  case (Throw i)
  with ok sysOK_finally [OF ok] show ?thesis
    by (auto split: callState.splits list.splits)
qed

lemma runEvents_snoc: "runEvents ops (evs @ [e]) = step ops (runEvents ops evs) e"
  by (simp add: runEvents_def)

lemma sysOK_runEvents: "sysOK ops (runEvents ops evs)"
proof (induction evs rule: rev_induct)
  case Nil
  show ?case by (simp add: runEvents_def sysOK_initial)
next
  case (snoc e evs)
  then show ?case by (simp add: runEvents_snoc sysOK_step)
qed


lemma underLock_ranUnderLock:
  assumes free: "\<not> mutexLocked (lock s)" "mutexQueue (lock s) = []"
    and keeps: "keeps lock operation"
  shows "ranUnderLock operation s (underLock caller operation s)"
proof -
  from underLock_free [OF free(1) keeps, of caller] obtain r s'
    where "underLock caller operation s = (Settled r, s')"
      "operation (s\<lparr>lock := (lock s)\<lparr>mutexLocked := True\<rparr>\<rparr>)
               = (r, s'\<lparr>lock := (lock s)\<lparr>mutexLocked := True\<rparr>\<rparr>)"
      "lock s' = snd (releaseLock ((lock s)\<lparr>mutexLocked := True\<rparr>))" by blast
  with free(2) show ?thesis by (simp add: ranUnderLock_def held_def releaseLock_def)
qed

lemma underLock_parked:
  "mutexLocked (lock s) \<Longrightarrow> parkedBehind caller s (underLock caller operation s)"
  by (simp add: underLock_taken parkedBehind_def)

lemma keeps_lock_catalogAndCharts:
  "keeps lock (bindE (fetchProductCatalog_impl env t) (\<lambda>catalog.
        bindE (fetchChartUrls_impl env p) (\<lambda>chartUrls.
        returnE (catalog, chartUrls))))"
  by (intro keeps_bindE keeps_returnE keeps_lock_fetchProductCatalog_impl
        keeps_lock_fetchChartUrls_impl)

lemma keeps_lock_forPpt:
  "keeps lock (bindE (ensureProductType_impl env t) (\<lambda>_. fetchChartUrls_impl env p))"
  by (intro keeps_bindE keeps_lock_ensureProductType_impl keeps_lock_fetchChartUrls_impl)

lemma sysOK_exclusive:
  assumes ok: "sysOK ops z"
  shows "(\<forall>i<length ops. \<forall>j<length ops.
            isInBody (calls z ! i) \<and> isInBody (calls z ! j) \<longrightarrow> i = j)
       \<and> mutexLocked (mtx z) = (\<exists>i<length ops. isInBody (calls z ! i))"
proof -
  from ok have body: "\<forall>i<length ops. isInBody (calls z ! i) =
      (mutexLocked (mtx z) \<and> grantOrder z \<noteq> [] \<and> i = last (grantOrder z))"
    and ne: "mutexLocked (mtx z) \<longrightarrow> grantOrder z \<noteq> []"
    and bound: "\<forall>i\<in>set (callOrder z). i < length ops"
    and order: "callOrder z = grantOrder z @ mutexQueue (mtx z)"
    unfolding sysOK_def by blast+
  have "\<exists>i<length ops. isInBody (calls z ! i)" if locked: "mutexLocked (mtx z)"
  proof -
    from locked ne have g: "grantOrder z \<noteq> []" by simp
    then have "last (grantOrder z) \<in> set (callOrder z)" using order by simp
    with bound have "last (grantOrder z) < length ops" by blast
    with body locked g show ?thesis by blast
  qed
  with body show ?thesis by blast
qed

lemma overlapping_run:
  "runEvents twoCalls overlapping
     = \<lparr>mtx = \<lparr>mutexQueue = [1], mutexLocked = True\<rparr>,
        calls = [InBody [FetchProductCatalogImpl, FetchChartUrlsImpl], Waiting],
        trace = [(0, FetchProductCatalogImpl)], callOrder = [0, 1], grantOrder = [0]\<rparr>"
  by (simp add: runEvents_def initialSys_def twoCalls_def overlapping_def acquireLock_def)

lemma bothSettled_run:
  "runEvents twoCalls bothSettled
     = \<lparr>mtx = \<lparr>mutexQueue = [], mutexLocked = False\<rparr>,
        calls = [HasSettled False, HasSettled True],
        trace = [(0, FetchProductCatalogImpl), (0, FetchChartUrlsImpl), (1, FetchChartUrlsImpl)],
        callOrder = [0, 1], grantOrder = [0, 1]\<rparr>"
  by (simp add: runEvents_def initialSys_def twoCalls_def overlapping_def bothSettled_def
        acquireLock_def releaseLock_def finallyRelease_def)

section \<open>What the stability wait has read when it returns\<close>

lemma endsWithCopies_iff: "endsWithCopies n x xs = (\<exists>pre. xs = pre @ replicate n x)"
proof
  assume "endsWithCopies n x xs"
  then have "xs = take (length xs - n) xs @ replicate n x"
    unfolding endsWithCopies_def by (metis append_take_drop_id)
  then show "\<exists>pre. xs = pre @ replicate n x" ..
next
  assume "\<exists>pre. xs = pre @ replicate n x"
  then show "endsWithCopies n x xs" by (auto simp: endsWithCopies_def)
qed

lemma lengthReads_append [simp]: "lengthReads (a @ b) = lengthReads a @ lengthReads b"
  by (simp add: lengthReads_def)

lemma lengthReads_read [simp]: "lengthReads [(ReadArrayLength, r)] = [r]"
  by (simp add: lengthReads_def)

lemma positiveReads_append [simp]: "positiveReads (a @ b) = positiveReads a @ positiveReads b"
  by (simp add: positiveReads_def)

lemma positiveReads_read [simp]:
  "positiveReads [(ReadArrayLength, r)] = (if positive r then [r] else [])"
  by (simp add: positiveReads_def)

lemma replicate_more:
  assumes "n \<le> m"
  shows "\<exists>pre'. pre @ replicate m x = pre' @ replicate n x"
proof -
  from assms have "replicate m x = replicate (m - n) x @ replicate n x"
    by (simp add: replicate_add [symmetric])
  then have "pre @ replicate m x = (pre @ replicate (m - n) x) @ replicate n x" by simp
  then show ?thesis ..
qed

lemma pollOnce_reads:
  assumes p: "pollOnce env m start l k s = (out, s')"
    and log: "scriptLog s = log0 @ new"
    and inv: "gt0 l \<longrightarrow> (\<exists>pre. positiveReads new = pre @ replicate (Suc k) (Inr l))"
  shows "\<exists>new'. scriptLog s' = log0 @ new'
      \<and> (case out of
            Return c \<Rightarrow> gt0 c
              \<and> (\<exists>pre. positiveReads new' = pre @ replicate (requiredStableChecks + 2) (Inr c))
          | Continue l' k' \<Rightarrow>
              gt0 l' \<longrightarrow> (\<exists>pre. positiveReads new' = pre @ replicate (Suc k') (Inr l')))"
  using p
proof (cases rule: pollOnce_cases)
  case (skip r)
  from executeJavaScript_log [OF skip(1)] log
  have "scriptLog s' = log0 @ (new @ [(ReadArrayLength, r)])" by simp
  moreover from skip(2) have "positiveReads (new @ [(ReadArrayLength, r)]) = positiveReads new"
    by simp
  ultimately show ?thesis using inv skip(3) by (intro exI [of _ "new @ [(ReadArrayLength, r)]"]) simp
next
  case (changed c)
  from executeJavaScript_log [OF changed(1)] log
  have "scriptLog s' = log0 @ (new @ [(ReadArrayLength, Inr c)])" by simp
  moreover from changed(2)
  have "positiveReads (new @ [(ReadArrayLength, Inr c)]) = positiveReads new @ replicate (Suc 0) (Inr c)"
    by simp
  ultimately show ?thesis using changed(4)
    by (intro exI [of _ "new @ [(ReadArrayLength, Inr c)]"]) auto
next
  case same
  from inv same(2) obtain pre where pre: "positiveReads new = pre @ replicate (Suc k) (Inr l)"
    by blast
  from executeJavaScript_log [OF same(1)] log
  have "scriptLog s' = log0 @ (new @ [(ReadArrayLength, Inr l)])" by simp
  moreover from same(2) pre
  have "positiveReads (new @ [(ReadArrayLength, Inr l)]) = pre @ replicate (Suc (k + 1)) (Inr l)"
    by (simp add: replicate_append_same)
  ultimately show ?thesis using same(4)
    by (intro exI [of _ "new @ [(ReadArrayLength, Inr l)]"]) auto
next
  case (thrown s1 e)
  from inv thrown(2) obtain pre where pre: "positiveReads new = pre @ replicate (Suc k) (Inr l)"
    by blast
  from executeJavaScript_log [OF thrown(1)] executeJavaScript_log [OF thrown(5)] log
  have "scriptLog s' = log0 @ (new @ [(ReadArrayLength, Inr l), (ReadArrayLength, Inl e)])"
    by simp
  moreover from thrown(2) pre
  have "positiveReads (new @ [(ReadArrayLength, Inr l), (ReadArrayLength, Inl e)])
          = pre @ replicate (Suc (k + 1)) (Inr l)"
    by (simp add: positiveReads_def lengthReads_def replicate_append_same)
  ultimately show ?thesis using thrown(6)
    by (intro exI [of _ "new @ [(ReadArrayLength, Inr l), (ReadArrayLength, Inl e)]"]) auto
next
  case (grown s1 c)
  from executeJavaScript_log [OF grown(1)] executeJavaScript_log [OF grown(5)] log
  have "scriptLog s' = log0 @ (new @ [(ReadArrayLength, Inr l), (ReadArrayLength, Inr c)])"
    by simp
  moreover have "gt0 c \<longrightarrow>
      positiveReads (new @ [(ReadArrayLength, Inr l), (ReadArrayLength, Inr c)])
          = (positiveReads new @ [Inr l]) @ replicate (Suc 0) (Inr c)"
    using grown(2) by (simp add: positiveReads_def lengthReads_def)
  ultimately show ?thesis using grown(7)
    by (intro exI [of _ "new @ [(ReadArrayLength, Inr l), (ReadArrayLength, Inr c)]"]) auto
next
  case (confirmed s1)
  from inv confirmed(2) obtain pre where pre: "positiveReads new = pre @ replicate (Suc k) (Inr l)"
    by blast
  from executeJavaScript_log [OF confirmed(1)] executeJavaScript_log [OF confirmed(5)] log
  have "scriptLog s' = log0 @ (new @ [(ReadArrayLength, Inr l), (ReadArrayLength, Inr l)])"
    by simp
  moreover from confirmed(2) pre
  have "positiveReads (new @ [(ReadArrayLength, Inr l), (ReadArrayLength, Inr l)])
          = pre @ replicate (Suc (Suc (Suc k))) (Inr l)"
    by (simp add: positiveReads_def lengthReads_def replicate_append_same
          replicate_app_Cons_same)
  moreover from confirmed(3) have "requiredStableChecks + 2 \<le> Suc (Suc (Suc k))" by simp
  from replicate_more [OF this, of pre "Inr l"]
  have "\<exists>pre'. pre @ replicate (Suc (Suc (Suc k))) (Inr l)
          = pre' @ replicate (requiredStableChecks + 2) (Inr l)" .
  ultimately show ?thesis using confirmed(2,6)
    by (intro exI [of _ "new @ [(ReadArrayLength, Inr l), (ReadArrayLength, Inr l)]"]) auto
qed


lemma pollOnce_log:
  assumes "pollOnce env m start l k s = (out, s')"
  shows "\<exists>more. scriptLog s' = scriptLog s @ more"
  using assms
  by (cases rule: pollOnce_cases) (auto dest!: executeJavaScript_log)

lemma waitLoop_reads:
  assumes "waitLoop env mx m start l k s = (Inr (how, c), s')"
    and "scriptLog s = log0 @ new"
    and "gt0 l \<longrightarrow> (\<exists>pre. positiveReads new = pre @ replicate (Suc k) (Inr l))"
  shows "\<exists>new'. scriptLog s' = log0 @ new'
      \<and> (how = Confirmed \<longrightarrow> gt0 c
            \<and> (\<exists>pre. positiveReads new' = pre @ replicate (requiredStableChecks + 2) (Inr c)))
      \<and> (how = TimedOut \<longrightarrow>
            (\<exists>r. lengthReads new' \<noteq> [] \<and> last (lengthReads new') = Inr r
                \<and> c = (if gt0 r then r else JNum 0)))"
  using assms
proof (induction env mx m start l k s arbitrary: new rule: waitLoop.induct)
  case (1 env mx m start l k s)
  show ?case
  proof (cases "now s - start < mx")
    case False
    obtain r s1 where e: "executeJavaScript env ReadArrayLength s = (r, s1)"
      by (cases "executeJavaScript env ReadArrayLength s")
    from "1.prems"(1) False e
    have "how = TimedOut \<and> s' = s1 \<and> (\<exists>v. r = Inr v \<and> c = (if gt0 v then v else JNum 0))"
      by (subst (asm) waitLoop.simps) (auto split: sum.splits if_splits)
    then obtain v where
      h: "how = TimedOut" "s' = s1" "r = Inr v" "c = (if gt0 v then v else JNum 0)"
      by blast
    from executeJavaScript_log [OF e] "1.prems"(2) h
    have "scriptLog s' = log0 @ (new @ [(ReadArrayLength, Inr v)])" by simp
    with h show ?thesis
      by (intro exI [of _ "new @ [(ReadArrayLength, Inr v)]"]) auto
  next
    case True
    obtain out s1 where p: "pollOnce env m start l k s = (out, s1)"
      by (cases "pollOnce env m start l k s")
    from pollOnce_reads [OF p "1.prems"(2,3)] obtain new1 where
      log1: "scriptLog s1 = log0 @ new1"
      and out: "case out of
            Return c \<Rightarrow> gt0 c
              \<and> (\<exists>pre. positiveReads new1 = pre @ replicate (requiredStableChecks + 2) (Inr c))
          | Continue l' k' \<Rightarrow>
              gt0 l' \<longrightarrow> (\<exists>pre. positiveReads new1 = pre @ replicate (Suc k') (Inr l'))"
      by blast
    show ?thesis
    proof (cases out)
      case (Return c')
      with "1.prems"(1) True p have h: "how = Confirmed" "s' = s1" "c = c'"
        by (subst (asm) waitLoop.simps, simp)+
      with log1 out Return show ?thesis by (intro exI [of _ new1]) simp
    next
      case (Continue l' k')
      from "1.prems"(1) True p Continue
      have run: "waitLoop env mx m start l' k' (delay 500 s1) = (Inr (how, c), s')"
        by (subst (asm) waitLoop.simps) simp
      from log1 have log2: "scriptLog (delay 500 s1) = log0 @ new1" by simp
      from out Continue
      have inv: "gt0 l' \<longrightarrow> (\<exists>pre. positiveReads new1 = pre @ replicate (Suc k') (Inr l'))"
        by simp
      from "1.IH" [OF True p [symmetric] Continue run log2 inv] show ?thesis .
    qed
  qed
qed

lemma newLog_append: "scriptLog s' = scriptLog s @ new \<Longrightarrow> newLog s s' = new"
  by (simp add: newLog_def)

lemma waitForStableArray_exit_reads:
  assumes "waitForStableArray_exit env s = (Inr (how, c), s')"
  shows "(how = Confirmed \<longrightarrow> gt0 c
            \<and> endsWithCopies (requiredStableChecks + 2) (Inr c) (positiveReads (newLog s s')))
      \<and> (how = TimedOut \<longrightarrow>
            (\<exists>r. lengthReads (newLog s s') \<noteq> [] \<and> last (lengthReads (newLog s s')) = Inr r
                \<and> c = (if gt0 r then r else JNum 0)))"
proof -
  let ?s0 = "s\<lparr>fetchCount := fetchCount s + 1\<rparr>"
  let ?mx = "if fetchCount s < 2 then 30000 else 20000"
  let ?m = "if fetchCount s < 2 then 4000 else 2000"
  from assms have run: "waitLoop env ?mx ?m (now s) (JNum 0) 0 ?s0 = (Inr (how, c), s')"
    by (auto simp: waitForStableArray_exit_def Let_def split: if_splits)
  have log: "scriptLog ?s0 = scriptLog s @ []" by simp
  have inv: "gt0 (JNum 0) \<longrightarrow> (\<exists>pre. positiveReads [] = pre @ replicate (Suc 0) (Inr (JNum 0)))"
    by simp
  from waitLoop_reads [OF run log inv] obtain new' where
    n: "scriptLog s' = scriptLog s @ new'"
    and c: "how = Confirmed \<longrightarrow> gt0 c
            \<and> (\<exists>pre. positiveReads new' = pre @ replicate (requiredStableChecks + 2) (Inr c))"
    and t: "how = TimedOut \<longrightarrow>
            (\<exists>r. lengthReads new' \<noteq> [] \<and> last (lengthReads new') = Inr r
                \<and> c = (if gt0 r then r else JNum 0))"
    by blast
  from newLog_append [OF n] c t show ?thesis by (simp add: endsWithCopies_iff)
qed

lemma pollOnce_confirmation:
  assumes "executeJavaScript env ReadArrayLength t = (Inr l, s1)" "gt0 l"
    "requiredStableChecks \<le> k + 1" "m \<le> now s1 - start"
    "executeJavaScript env ReadArrayLength (delay 1500 s1) = (Inr c, t')"
  shows "pollOnce env m start l k t = (if c = l then (Return l, t') else (Continue c 0, t'))"
  using assms by (simp add: pollOnce_def)

lemma pollOnce_Return:
  assumes "pollOnce env m start l k t = (Return c, t')"
  shows "c = l \<and> gt0 l \<and> requiredStableChecks \<le> k + 1
       \<and> (\<exists>s1. executeJavaScript env ReadArrayLength t = (Inr l, s1) \<and> m \<le> now s1 - start
              \<and> executeJavaScript env ReadArrayLength (delay 1500 s1) = (Inr l, t'))"
  using assms by (cases rule: pollOnce_cases) auto


lemma serviceWith_fields:
  "scriptLog (serviceWith n m) = []" "now (serviceWith n m) = 0"
  "fetchCount (serviceWith n m) = n" "lock (serviceWith n m) = m"
  by (simp_all add: serviceWith_def)

lemma steadyPage_warm_wait:
  "waitForStableArray_exit steadyPage (serviceWith 2 m) =
     (Inr (Confirmed, JNum 5),
      \<lparr>now = 5300, evals = 8, fetchCount = 3, lock = m,
         scriptLog =
           [(ReadArrayLength, Inr (JNum 5)), (ReadArrayLength, Inr (JNum 5)),
            (ReadArrayLength, Inr (JNum 5)), (ReadArrayLength, Inr (JNum 5)),
            (ReadArrayLength, Inr (JNum 5)), (ReadArrayLength, Inr (JNum 5)),
            (ReadArrayLength, Inr (JNum 5)), (ReadArrayLength, Inr (JNum 5))]\<rparr>)"
  by (simp add: page_eval steadyPage_def serviceWith_def requiredStableChecks_def)

lemma blinkPage_warm_wait:
  "waitForStableArray_exit blinkPage (serviceWith 2 m) =
     (Inr (Confirmed, JNum 5),
      \<lparr>now = 5900, evals = 9, fetchCount = 3, lock = m,
         scriptLog =
           [(ReadArrayLength, Inr (JNum 5)), (ReadArrayLength, Inr (JNum 5)),
            (ReadArrayLength, Inr (JNum 0)), (ReadArrayLength, Inr (JNum 5)),
            (ReadArrayLength, Inr (JNum 5)), (ReadArrayLength, Inr (JNum 5)),
            (ReadArrayLength, Inr (JNum 5)), (ReadArrayLength, Inr (JNum 5)),
            (ReadArrayLength, Inr (JNum 5))]\<rparr>)"
  by (simp add: page_eval blinkPage_def serviceWith_def requiredStableChecks_def)

lemma idlePage_cold_wait:
  "fst (waitForStableArray_exit idlePage (serviceWith 0 m)) = Inr (TimedOut, JNum 0)
   \<and> now (snd (waitForStableArray_exit idlePage (serviceWith 0 m))) = 31000
   \<and> evals (snd (waitForStableArray_exit idlePage (serviceWith 0 m))) = 21"
  by (simp add: page_eval idlePage_def serviceWith_def)

lemma idlePage_warm_wait:
  "fst (waitForStableArray_exit idlePage (serviceWith 2 m)) = Inr (TimedOut, JNum 0)
   \<and> now (snd (waitForStableArray_exit idlePage (serviceWith 2 m))) = 22000
   \<and> evals (snd (waitForStableArray_exit idlePage (serviceWith 2 m))) = 15"
  by (simp add: page_eval idlePage_def serviceWith_def)

lemma steadyPage_cold_wait:
  "fst (waitForStableArray_exit steadyPage (serviceWith 0 m)) = Inr (Confirmed, JNum 5)
   \<and> now (snd (waitForStableArray_exit steadyPage (serviceWith 0 m))) = 5900"
  by (simp add: page_eval steadyPage_def serviceWith_def requiredStableChecks_def)

lemma replicate_seven: "replicate 7 x = [x, x, x, x, x, x, x]"
  by (simp add: numeral_eq_Suc)

section \<open>The results of downloadCharts line up with its input\<close>



section \<open>The session mutex\<close>

text \<open>
  Claim C2. Each of the four public operations (\<open>fetchProductCatalog\<close>,
  \<open>fetchChartUrls\<close>, \<open>fetchCatalogAndChartUrls\<close>, \<open>fetchChartUrlsForPpt\<close>), called with
  the mutex free, settles with the outcome (value or exception) of its body run while
  the mutex is held, and leaves the mutex free; called while the mutex is held it is
  parked at the end of the queue with the session untouched. The private operations
  never change the mutex. For every list of public calls and every sequence of events
  (a call being made, a call in its body touching the session, a call finishing a
  private operation, a call throwing): at most one call is in its body, and one is
  exactly when the mutex is held; a free mutex has an empty queue; the calls made are
  the calls granted followed by the calls queued, in this order (first come, first
  served); the touches of the session come in one block per call in the order of the
  grants, so the two private operations of \<open>fetchCatalogAndChartUrls\<close> are not
  separated by another call's work.
\<close>

theorem mutex_serialises_and_is_released:
  "(\<not> mutexLocked (lock s) \<and> mutexQueue (lock s) = [] \<longrightarrow>
      ranUnderLock (fetchProductCatalog_impl env t) s (fetchProductCatalog caller env t s)
      \<and> ranUnderLock (fetchChartUrls_impl env p) s (fetchChartUrls caller env p s)
      \<and> ranUnderLock
            (bindE (fetchProductCatalog_impl env t) (\<lambda>catalog.
             bindE (fetchChartUrls_impl env p) (\<lambda>chartUrls.
             returnE (catalog, chartUrls))))
            s (fetchCatalogAndChartUrls caller env t p s)
      \<and> ranUnderLock
            (bindE (ensureProductType_impl env t) (\<lambda>_. fetchChartUrls_impl env p))
            s (fetchChartUrlsForPpt caller env t p s))
   \<and> (mutexLocked (lock s) \<longrightarrow>
      parkedBehind caller s (fetchProductCatalog caller env t s)
      \<and> parkedBehind caller s (fetchChartUrls caller env p s)
      \<and> parkedBehind caller s (fetchCatalogAndChartUrls caller env t p s)
      \<and> parkedBehind caller s (fetchChartUrlsForPpt caller env t p s))
   \<and> keeps lock (fetchProductCatalog_impl env t)
   \<and> keeps lock (ensureProductType_impl env t)
   \<and> keeps lock (fetchChartUrls_impl env p)
   \<and> (\<forall>i<length ops. \<forall>j<length ops.
        isInBody (calls (runEvents ops evs) ! i) \<and> isInBody (calls (runEvents ops evs) ! j)
        \<longrightarrow> i = j)
   \<and> mutexLocked (mtx (runEvents ops evs))
       = (\<exists>i<length ops. isInBody (calls (runEvents ops evs) ! i))
   \<and> (\<not> mutexLocked (mtx (runEvents ops evs)) \<longrightarrow> mutexQueue (mtx (runEvents ops evs)) = [])
   \<and> callOrder (runEvents ops evs)
       = grantOrder (runEvents ops evs) @ mutexQueue (mtx (runEvents ops evs))
   \<and> distinct (callOrder (runEvents ops evs))
   \<and> (\<exists>ks. length ks = length (grantOrder (runEvents ops evs))
         \<and> map fst (trace (runEvents ops evs)) = blocks (grantOrder (runEvents ops evs)) ks)
   \<and> (\<forall>e\<in>set (trace (runEvents ops evs)).
         fst e < length ops \<and> snd e \<in> set (opBody (ops ! fst e)))"
proof -
  have seq: "\<not> mutexLocked (lock s) \<and> mutexQueue (lock s) = [] \<longrightarrow>
      ranUnderLock (fetchProductCatalog_impl env t) s (fetchProductCatalog caller env t s)
      \<and> ranUnderLock (fetchChartUrls_impl env p) s (fetchChartUrls caller env p s)
      \<and> ranUnderLock
            (bindE (fetchProductCatalog_impl env t) (\<lambda>catalog.
             bindE (fetchChartUrls_impl env p) (\<lambda>chartUrls.
             returnE (catalog, chartUrls))))
            s (fetchCatalogAndChartUrls caller env t p s)
      \<and> ranUnderLock
            (bindE (ensureProductType_impl env t) (\<lambda>_. fetchChartUrls_impl env p))
            s (fetchChartUrlsForPpt caller env t p s)"
    unfolding fetchProductCatalog_def fetchChartUrls_def fetchCatalogAndChartUrls_def
      fetchChartUrlsForPpt_def
    by (intro impI conjI underLock_ranUnderLock keeps_lock_fetchProductCatalog_impl
          keeps_lock_fetchChartUrls_impl keeps_lock_catalogAndCharts keeps_lock_forPpt) simp_all
  have park: "mutexLocked (lock s) \<longrightarrow>
      parkedBehind caller s (fetchProductCatalog caller env t s)
      \<and> parkedBehind caller s (fetchChartUrls caller env p s)
      \<and> parkedBehind caller s (fetchCatalogAndChartUrls caller env t p s)
      \<and> parkedBehind caller s (fetchChartUrlsForPpt caller env t p s)"
    unfolding fetchProductCatalog_def fetchChartUrls_def fetchCatalogAndChartUrls_def
      fetchChartUrlsForPpt_def
    by (intro impI conjI underLock_parked)
  note ok = sysOK_runEvents [of ops evs]
  note ex = sysOK_exclusive [OF ok]
  from ok have rest:
    "(\<not> mutexLocked (mtx (runEvents ops evs)) \<longrightarrow> mutexQueue (mtx (runEvents ops evs)) = [])"
    "callOrder (runEvents ops evs)
       = grantOrder (runEvents ops evs) @ mutexQueue (mtx (runEvents ops evs))"
    "distinct (callOrder (runEvents ops evs))"
    "(\<exists>ks. length ks = length (grantOrder (runEvents ops evs))
         \<and> map fst (trace (runEvents ops evs)) = blocks (grantOrder (runEvents ops evs)) ks)"
    "(\<forall>e\<in>set (trace (runEvents ops evs)).
         fst e < length ops \<and> snd e \<in> set (opBody (ops ! fst e)))"
    unfolding sysOK_def by blast+
  note impls = keeps_lock_fetchProductCatalog_impl [of env t]
    keeps_lock_ensureProductType_impl [of env t] keeps_lock_fetchChartUrls_impl [of env p]
  from seq park impls ex rest show ?thesis by blast
qed

theorem mutex_serialises_and_is_released_witness:
  "ranUnderLock
      (bindE (fetchProductCatalog_impl emptyPage ''OSS'') (\<lambda>catalog.
       bindE (fetchChartUrls_impl emptyPage ''42'') (\<lambda>chartUrls.
       returnE (catalog, chartUrls))))
      (serviceWith 0 freeLock)
      (fetchCatalogAndChartUrls 7 emptyPage ''OSS'' ''42'' (serviceWith 0 freeLock))
   \<and> parkedBehind 7 (serviceWith 0 heldLock)
        (fetchCatalogAndChartUrls 7 emptyPage ''OSS'' ''42'' (serviceWith 0 heldLock))
   \<and> mutexLocked (mtx (runEvents twoCalls overlapping))
   \<and> isInBody (calls (runEvents twoCalls overlapping) ! 0)
   \<and> \<not> isInBody (calls (runEvents twoCalls overlapping) ! 1)
   \<and> callOrder (runEvents twoCalls overlapping) = [0] @ [1]
   \<and> \<not> mutexLocked (mtx (runEvents twoCalls bothSettled))
   \<and> mutexQueue (mtx (runEvents twoCalls bothSettled)) = []
   \<and> map fst (trace (runEvents twoCalls bothSettled)) = blocks [0, 1] [2, 1]"
proof -
  note free = mutex_serialises_and_is_released
    [where s = "serviceWith 0 freeLock" and caller = 7 and env = emptyPage and t = "''OSS''"
       and p = "''42''" and ops = twoCalls and evs = overlapping]
  note held = mutex_serialises_and_is_released
    [where s = "serviceWith 0 heldLock" and caller = 7 and env = emptyPage and t = "''OSS''"
       and p = "''42''" and ops = twoCalls and evs = bothSettled]
  have f: "\<not> mutexLocked (lock (serviceWith 0 freeLock))
         \<and> mutexQueue (lock (serviceWith 0 freeLock)) = []"
    by (simp add: serviceWith_def freeLock_def)
  have h: "mutexLocked (lock (serviceWith 0 heldLock))"
    by (simp add: serviceWith_def heldLock_def)
  from free f
  have a: "ranUnderLock
      (bindE (fetchProductCatalog_impl emptyPage ''OSS'') (\<lambda>catalog.
       bindE (fetchChartUrls_impl emptyPage ''42'') (\<lambda>chartUrls.
       returnE (catalog, chartUrls))))
      (serviceWith 0 freeLock)
      (fetchCatalogAndChartUrls 7 emptyPage ''OSS'' ''42'' (serviceWith 0 freeLock))"
    by blast
  from held h
  have b: "parkedBehind 7 (serviceWith 0 heldLock)
        (fetchCatalogAndChartUrls 7 emptyPage ''OSS'' ''42'' (serviceWith 0 heldLock))"
    by blast
  from free have "mutexLocked (mtx (runEvents twoCalls overlapping))
       = (\<exists>i<length twoCalls. isInBody (calls (runEvents twoCalls overlapping) ! i))"
    and "\<forall>i<length twoCalls. \<forall>j<length twoCalls.
        isInBody (calls (runEvents twoCalls overlapping) ! i)
        \<and> isInBody (calls (runEvents twoCalls overlapping) ! j) \<longrightarrow> i = j"
    and "callOrder (runEvents twoCalls overlapping)
       = grantOrder (runEvents twoCalls overlapping)
           @ mutexQueue (mtx (runEvents twoCalls overlapping))"
    by blast+
  then have c: "mutexLocked (mtx (runEvents twoCalls overlapping))
   \<and> isInBody (calls (runEvents twoCalls overlapping) ! 0)
   \<and> \<not> isInBody (calls (runEvents twoCalls overlapping) ! 1)
   \<and> callOrder (runEvents twoCalls overlapping) = [0] @ [1]"
    by (simp add: overlapping_run isInBody_def)
  from held have "mutexLocked (mtx (runEvents twoCalls bothSettled))
       = (\<exists>i<length twoCalls. isInBody (calls (runEvents twoCalls bothSettled) ! i))"
    and "\<not> mutexLocked (mtx (runEvents twoCalls bothSettled))
          \<longrightarrow> mutexQueue (mtx (runEvents twoCalls bothSettled)) = []"
    by blast+
  then have d: "\<not> mutexLocked (mtx (runEvents twoCalls bothSettled))
   \<and> mutexQueue (mtx (runEvents twoCalls bothSettled)) = []"
    by (simp add: bothSettled_run isInBody_def)
  have e: "map fst (trace (runEvents twoCalls bothSettled)) = blocks [0, 1] [2, 1]"
    by (simp add: bothSettled_run blocks_def numeral_2_eq_2)
  from a b c d e show ?thesis by blast
qed

section \<open>When a length is accepted\<close>

text \<open>
  Claim C3, as amended. \<open>_waitForStableArray\<close> returns a length in two ways. Inside the
  loop it returns the length \<open>c\<close> only when \<open>c\<close> is positive, the last eight positive
  reads of the wait all returned \<open>c\<close> (the read that first saw it, six polls that found
  it unchanged, and the re-read made 1500 ms after the sixth; reads that threw or
  returned nothing positive in between are skipped and do not reset the counter), and
  \<open>minTotalWait\<close> plus the 1500 ms of the confirmation have elapsed. When \<open>maxWait\<close> has
  elapsed without such a return, it reads the length once more and returns it if it is
  positive (0 otherwise), with no stability requirement and no confirmation. A round of
  the poll returns only through the confirmation: the read equals \<open>lastCount\<close>, is
  positive, the counter reaches 6, the floor has elapsed, and the re-read after 1500 ms
  returns the same length; a re-read that returns another length sets the counter to
  0, makes that length the new \<open>lastCount\<close>, and the poll goes on. A read that throws
  or returns nothing positive leaves \<open>lastCount\<close> and the counter as they are; a positive
  read other than \<open>lastCount\<close> becomes \<open>lastCount\<close> with the counter at 0; a read equal to
  \<open>lastCount\<close> adds one to the counter, also when the re-read of the confirmation
  throws. A round begins only while less than \<open>maxWait\<close> has elapsed, and the next one
  begins 500 ms after it ends; once \<open>maxWait\<close> has elapsed the wait is the one final read.
  On a page whose evaluations take at most \<open>L\<close> ms the wait is over no later than
  \<open>maxWait + 3 L + 2000\<close> ms after it began.
\<close>

theorem accepted_when_confirmed_or_out_of_time:
  "(\<forall>c s'. waitForStableArray_exit env s = (Inr (Confirmed, c), s') \<longrightarrow>
        gt0 c
      \<and> endsWithCopies (requiredStableChecks + 2) (Inr c) (positiveReads (newLog s s'))
      \<and> now s + (if fetchCount s < 2 then 4000 else 2000) + 1500 \<le> now s')
   \<and> (\<forall>c s'. waitForStableArray_exit env s = (Inr (TimedOut, c), s') \<longrightarrow>
        now s + (if fetchCount s < 2 then 30000 else 20000) \<le> now s'
      \<and> (\<exists>r. lengthReads (newLog s s') \<noteq> [] \<and> last (lengthReads (newLog s s')) = Inr r
            \<and> c = (if gt0 r then r else JNum 0)))
   \<and> (\<forall>m start l k t c t'. pollOnce env m start l k t = (Return c, t') \<longrightarrow>
        c = l \<and> gt0 l \<and> requiredStableChecks \<le> k + 1
      \<and> (\<exists>s1. executeJavaScript env ReadArrayLength t = (Inr l, s1) \<and> m \<le> now s1 - start
             \<and> executeJavaScript env ReadArrayLength (delay 1500 s1) = (Inr l, t')))
   \<and> (\<forall>m start l k t s1 c t'.
        executeJavaScript env ReadArrayLength t = (Inr l, s1) \<and> gt0 l
        \<and> requiredStableChecks \<le> k + 1 \<and> m \<le> now s1 - start
        \<and> executeJavaScript env ReadArrayLength (delay 1500 s1) = (Inr c, t') \<longrightarrow>
        pollOnce env m start l k t
          = (if c = l then (Return l, t') else (Continue c 0, t')))
   \<and> (\<forall>m start l k t r t'.
        executeJavaScript env ReadArrayLength t = (r, t') \<and> \<not> positive r \<longrightarrow>
        pollOnce env m start l k t = (Continue l k, t'))
   \<and> (\<forall>m start l k t c t'.
        executeJavaScript env ReadArrayLength t = (Inr c, t') \<and> gt0 c \<and> c \<noteq> l \<longrightarrow>
        pollOnce env m start l k t = (Continue c 0, t'))
   \<and> (\<forall>m start l k t t'.
        executeJavaScript env ReadArrayLength t = (Inr l, t') \<and> gt0 l
        \<and> \<not> (requiredStableChecks \<le> k + 1 \<and> m \<le> now t' - start) \<longrightarrow>
        pollOnce env m start l k t = (Continue l (k + 1), t'))
   \<and> (\<forall>m start l k t s1 e t'.
        executeJavaScript env ReadArrayLength t = (Inr l, s1) \<and> gt0 l
        \<and> requiredStableChecks \<le> k + 1 \<and> m \<le> now s1 - start
        \<and> executeJavaScript env ReadArrayLength (delay 1500 s1) = (Inl e, t') \<longrightarrow>
        pollOnce env m start l k t = (Continue l (k + 1), t'))
   \<and> (\<forall>mx m start l k t. \<not> now t - start < mx \<longrightarrow>
        waitLoop env mx m start l k t
          = (case executeJavaScript env ReadArrayLength t of
               (Inl e, t') \<Rightarrow> (Inl e, t')
             | (Inr finalCount, t') \<Rightarrow>
                 (Inr (TimedOut, if gt0 finalCount then finalCount else JNum 0), t')))
   \<and> (\<forall>mx m start l k t. now t - start < mx \<longrightarrow>
        waitLoop env mx m start l k t
          = (case pollOnce env m start l k t of
               (Return c, t1) \<Rightarrow> (Inr (Confirmed, c), t1)
             | (Continue l' k', t1) \<Rightarrow> waitLoop env mx m start l' k' (delay 500 t1)))
   \<and> (\<forall>L r s'. (\<forall>k. fst (evalJS env k) \<le> L) \<and> waitForStableArray_exit env s = (r, s') \<longrightarrow>
        now s' \<le> now s + (if fetchCount s < 2 then 30000 else 20000) + 3 * L + 2000)"
proof (intro conjI allI impI)
  let ?s0 = "s\<lparr>fetchCount := fetchCount s + 1\<rparr>"
  let ?mx = "if fetchCount s < 2 then 30000 else 20000"
  let ?m = "if fetchCount s < 2 then 4000 else 2000"
  have eq: "waitForStableArray_exit env s = waitLoop env ?mx ?m (now s) (JNum 0) 0 ?s0"
    by (auto simp: waitForStableArray_exit_def Let_def)
  {
    fix c s' assume run: "waitForStableArray_exit env s = (Inr (Confirmed, c), s')"
    from waitForStableArray_exit_reads [OF run]
    show "gt0 c"
      and "endsWithCopies (requiredStableChecks + 2) (Inr c) (positiveReads (newLog s s'))"
      by simp_all
    from run eq have "waitLoop env ?mx ?m (now s) (JNum 0) 0 ?s0 = (Inr (Confirmed, c), s')"
      by simp
    from waitLoop_timing [OF _ this] show "now s + ?m + 1500 \<le> now s'" by simp
  }
  {
    fix c s' assume run: "waitForStableArray_exit env s = (Inr (TimedOut, c), s')"
    from waitForStableArray_exit_reads [OF run]
    show "\<exists>r. lengthReads (newLog s s') \<noteq> [] \<and> last (lengthReads (newLog s s')) = Inr r
            \<and> c = (if gt0 r then r else JNum 0)"
      by simp
    from run eq have "waitLoop env ?mx ?m (now s) (JNum 0) 0 ?s0 = (Inr (TimedOut, c), s')"
      by simp
    from waitLoop_timing [OF _ this] show "now s + ?mx \<le> now s'" by simp
  }
  {
    fix m start l k t c t' assume "pollOnce env m start l k t = (Return c, t')"
    from pollOnce_Return [OF this]
    show "c = l" and "gt0 l" and "requiredStableChecks \<le> k + 1"
      and "\<exists>s1. executeJavaScript env ReadArrayLength t = (Inr l, s1) \<and> m \<le> now s1 - start
             \<and> executeJavaScript env ReadArrayLength (delay 1500 s1) = (Inr l, t')"
      by simp_all
  }
  {
    fix m start l k t s1 c t'
    assume "executeJavaScript env ReadArrayLength t = (Inr l, s1) \<and> gt0 l
        \<and> requiredStableChecks \<le> k + 1 \<and> m \<le> now s1 - start
        \<and> executeJavaScript env ReadArrayLength (delay 1500 s1) = (Inr c, t')"
    then show "pollOnce env m start l k t
          = (if c = l then (Return l, t') else (Continue c 0, t'))"
      using pollOnce_confirmation by blast
  }
  {
    fix m start l k t r t'
    assume "executeJavaScript env ReadArrayLength t = (r, t') \<and> \<not> positive r"
    then show "pollOnce env m start l k t = (Continue l k, t')"
      by (simp add: pollOnce_skip)
  }
  {
    fix m start l k t c t'
    assume "executeJavaScript env ReadArrayLength t = (Inr c, t') \<and> gt0 c \<and> c \<noteq> l"
    then show "pollOnce env m start l k t = (Continue c 0, t')"
      by (simp add: pollOnce_changed)
  }
  {
    fix m start l k t t'
    assume "executeJavaScript env ReadArrayLength t = (Inr l, t') \<and> gt0 l
        \<and> \<not> (requiredStableChecks \<le> k + 1 \<and> m \<le> now t' - start)"
    then show "pollOnce env m start l k t = (Continue l (k + 1), t')"
      using pollOnce_same by blast
  }
  {
    fix m start l k t s1 e t'
    assume "executeJavaScript env ReadArrayLength t = (Inr l, s1) \<and> gt0 l
        \<and> requiredStableChecks \<le> k + 1 \<and> m \<le> now s1 - start
        \<and> executeJavaScript env ReadArrayLength (delay 1500 s1) = (Inl e, t')"
    then show "pollOnce env m start l k t = (Continue l (k + 1), t')"
      using pollOnce_thrown by blast
  }
  {
    fix mx m start l k and t :: pstate
    assume "\<not> now t - start < mx"
    then show "waitLoop env mx m start l k t
          = (case executeJavaScript env ReadArrayLength t of
               (Inl e, t') \<Rightarrow> (Inl e, t')
             | (Inr finalCount, t') \<Rightarrow>
                 (Inr (TimedOut, if gt0 finalCount then finalCount else JNum 0), t'))"
      by (rule waitLoop_out_of_time)
  }
  {
    fix mx m start l k and t :: pstate
    assume "now t - start < mx"
    then show "waitLoop env mx m start l k t
          = (case pollOnce env m start l k t of
               (Return c, t1) \<Rightarrow> (Inr (Confirmed, c), t1)
             | (Continue l' k', t1) \<Rightarrow> waitLoop env mx m start l' k' (delay 500 t1))"
      by (rule waitLoop_in_time)
  }
  {
    fix L r s'
    assume "(\<forall>k. fst (evalJS env k) \<le> L) \<and> waitForStableArray_exit env s = (r, s')"
    then show "now s' \<le> now s + (if fetchCount s < 2 then 30000 else 20000) + 3 * L + 2000"
      using waitForStableArray_exit_upper by blast
  }
qed

theorem accepted_when_confirmed_or_out_of_time_witness:
  "fst (waitForStableArray_exit steadyPage (serviceWith 2 freeLock)) = Inr (Confirmed, JNum 5)
   \<and> endsWithCopies 8 (Inr (JNum 5))
        (positiveReads (newLog (serviceWith 2 freeLock)
           (snd (waitForStableArray_exit steadyPage (serviceWith 2 freeLock)))))
   \<and> 3500 \<le> now (snd (waitForStableArray_exit steadyPage (serviceWith 2 freeLock)))
   \<and> fst (waitForStableArray_exit growingPage (serviceWith 2 freeLock)) = Inr (TimedOut, JNum 2)
   \<and> last (lengthReads (newLog (serviceWith 2 freeLock)
           (snd (waitForStableArray_exit growingPage (serviceWith 2 freeLock))))) = Inr (JNum 2)
   \<and> 20000 \<le> now (snd (waitForStableArray_exit growingPage (serviceWith 2 freeLock)))
   \<and> pollOnce emptyPage 2000 0 (JNum 5) 3 (serviceWith 2 freeLock)
       = (Continue (JNum 5) 3,
          \<lparr>now = 25000, evals = 1, fetchCount = 2, lock = freeLock,
             scriptLog = [(ReadArrayLength, Inr (JNum 0))]\<rparr>)
   \<and> now (snd (waitForStableArray_exit idlePage (serviceWith 2 freeLock))) \<le> 25000"
proof -
  note steady = accepted_when_confirmed_or_out_of_time
    [where env = steadyPage and s = "serviceWith 2 freeLock", THEN conjunct1, rule_format,
     OF steadyPage_warm_wait]
  note growing = accepted_when_confirmed_or_out_of_time
    [where env = growingPage and s = "serviceWith 2 freeLock", THEN conjunct2, THEN conjunct1,
     rule_format, OF growingPage_warm_wait]
  from steady have a: "endsWithCopies 8 (Inr (JNum 5))
        (positiveReads (newLog (serviceWith 2 freeLock)
           (snd (waitForStableArray_exit steadyPage (serviceWith 2 freeLock)))))
     \<and> 3500 \<le> now (snd (waitForStableArray_exit steadyPage (serviceWith 2 freeLock)))"
    by (simp add: steadyPage_warm_wait requiredStableChecks_def)
  from growing have b: "last (lengthReads (newLog (serviceWith 2 freeLock)
           (snd (waitForStableArray_exit growingPage (serviceWith 2 freeLock))))) = Inr (JNum 2)
     \<and> 20000 \<le> now (snd (waitForStableArray_exit growingPage (serviceWith 2 freeLock)))"
    by (simp add: growingPage_warm_wait newLog_def serviceWith_fields lengthReads_def)
  have read: "executeJavaScript emptyPage ReadArrayLength (serviceWith 2 freeLock)
      = (Inr (JNum 0),
         \<lparr>now = 25000, evals = 1, fetchCount = 2, lock = freeLock,
            scriptLog = [(ReadArrayLength, Inr (JNum 0))]\<rparr>)
     \<and> \<not> positive (Inr (JNum 0))"
    by (simp add: executeJavaScript_def emptyPage_def serviceWith_def)
  from accepted_when_confirmed_or_out_of_time
    [where env = emptyPage, THEN conjunct2, THEN conjunct2, THEN conjunct2, THEN conjunct2,
     THEN conjunct1, rule_format, OF read]
  have c: "pollOnce emptyPage 2000 0 (JNum 5) 3 (serviceWith 2 freeLock)
       = (Continue (JNum 5) 3,
          \<lparr>now = 25000, evals = 1, fetchCount = 2, lock = freeLock,
             scriptLog = [(ReadArrayLength, Inr (JNum 0))]\<rparr>)" .
  have quick: "(\<forall>k. fst (evalJS idlePage k) \<le> 1000)
     \<and> waitForStableArray_exit idlePage (serviceWith 2 freeLock)
       = (fst (waitForStableArray_exit idlePage (serviceWith 2 freeLock)),
          snd (waitForStableArray_exit idlePage (serviceWith 2 freeLock)))"
    by (simp add: idlePage_def)
  from accepted_when_confirmed_or_out_of_time
    [where env = idlePage and s = "serviceWith 2 freeLock", THEN conjunct2, THEN conjunct2,
     THEN conjunct2, THEN conjunct2, THEN conjunct2, THEN conjunct2, THEN conjunct2,
     THEN conjunct2, THEN conjunct2, THEN conjunct2, rule_format, OF quick]
  have d: "now (snd (waitForStableArray_exit idlePage (serviceWith 2 freeLock))) \<le> 25000"
    by (simp add: serviceWith_fields)
  from a b c d show ?thesis by (simp add: steadyPage_warm_wait growingPage_warm_wait)
qed

text \<open>
  The sentence as the specification has it fails in two ways. When the wait runs out
  of time: on a page whose array is still growing (1 entry at the first read, 2 at the
  second; each read takes 25 s) the third wait of a session returns 2, a length that
  has been read once, after the loop, and never compared or confirmed. And inside the
  loop: on a page where the reads give 5, 5, 0, 5, 5, 5, 5, 5, 5 the wait confirms 5,
  although the six polls that found 5 unchanged were not consecutive: the third poll,
  which found nothing, lies between them and did not reset the counter.
\<close>

theorem unconfirmed_length_accepted_at_timeout:
  "fst (waitForStableArray growingPage (serviceWith 2 freeLock)) = Inr (JNum 2)
   \<and> gt0 (JNum 2)
   \<and> lengthReads (newLog (serviceWith 2 freeLock)
        (snd (waitForStableArray growingPage (serviceWith 2 freeLock))))
      = [Inr (JNum 1), Inr (JNum 2)]
   \<and> \<not> acceptedAsStated (JNum 2)
        (lengthReads (newLog (serviceWith 2 freeLock)
           (snd (waitForStableArray growingPage (serviceWith 2 freeLock)))))
   \<and> fst (waitForStableArray blinkPage (serviceWith 2 freeLock)) = Inr (JNum 5)
   \<and> lengthReads (newLog (serviceWith 2 freeLock)
        (snd (waitForStableArray blinkPage (serviceWith 2 freeLock))))
      = [Inr (JNum 5), Inr (JNum 5), Inr (JNum 0), Inr (JNum 5), Inr (JNum 5), Inr (JNum 5),
         Inr (JNum 5), Inr (JNum 5), Inr (JNum 5)]
   \<and> \<not> acceptedAsStated (JNum 5)
        (lengthReads (newLog (serviceWith 2 freeLock)
           (snd (waitForStableArray blinkPage (serviceWith 2 freeLock)))))"
  by (simp add: waitForStableArray_def growingPage_warm_wait blinkPage_warm_wait newLog_def
        serviceWith_fields lengthReads_def acceptedAsStated_def endsWithCopies_def
        requiredStableChecks_def replicate_seven)

section \<open>The cache validity boundary\<close>

text \<open>
  Claim C4. For a queue entry with a non-empty URL that starts with \<open>http\<close> whose cache
  path already holds a file: if the file is shorter than 1024 bytes, the worker unlinks
  it and opens the first download attempt (the fetch is issued, no result is recorded
  yet); if the file has 1024 bytes or more, the worker records the cache path as the
  entry's result and goes on, with the file untouched and no fetch issued.
\<close>

theorem cache_validity_boundary:
  assumes http: "url it \<noteq> []" "startsWith (url it) ''http''"
    and cached: "files st (localPathOf env (url it)) = Some content"
  shows "(length content < 1024 \<longrightarrow>
           (\<exists>st'. startItem env it st = (Some (AwaitFetch it 1), st')
              \<and> files st' = (files st)(localPathOf env (url it) := None)
              \<and> fetchLog st' = fetchLog st @ [(index it, 1)]
              \<and> results st' = results st))
       \<and> (1024 \<le> length content \<longrightarrow>
           (\<exists>st'. startItem env it st = (None, st')
              \<and> results st' = setResult (results st) (index it) (localPathOf env (url it))
              \<and> files st' = files st
              \<and> fetchLog st' = fetchLog st))"
  using http cached
  by (simp add: startItem_def cacheCheck_def existsSync_def statSync_size_def unlinkSync_def
        MIN_IMAGE_SIZE_def callDownloadFile_def onDownloaded_def)

theorem cache_validity_boundary_witness:
  "(\<exists>st'. startItem cacheEnv chartItem (cachedState 1023) = (Some (AwaitFetch chartItem 1), st')
       \<and> files st' = Map.empty \<and> fetchLog st' = [(0, 1)] \<and> results st' = [None])
   \<and> (\<exists>st'. startItem cacheEnv chartItem (cachedState 1024) = (None, st')
       \<and> results st' = [Some chartPath]
       \<and> files st' = [chartPath \<mapsto> replicate 1024 CHR ''x''] \<and> fetchLog st' = [])"
  using cache_validity_boundary [of chartItem "cachedState 1023" cacheEnv "replicate 1023 CHR ''x''"]
        cache_validity_boundary [of chartItem "cachedState 1024" cacheEnv "replicate 1024 CHR ''x''"]
  by (simp add: chartPath_eq) (simp add: chartItem_def cachedState_def setResult_def)

section \<open>A page served as an image is rejected\<close>

text \<open>
  Claim C5. When the transport answers the fetch of an attempt with a response whose
  status is OK and whose content type contains \<open>text/html\<close>: \<open>downloadFile\<close> throws
  without writing anything (the file system is as before); the worker's continuation
  after the fetch leaves the shared state unchanged and hands the exception to the
  \<open>catch\<close> block; and the \<open>catch\<close> block, in whatever state it runs, leaves no file at
  the cache path and does not record the path: before the third attempt it only
  starts the back-off timer, and on the third it records the empty string and goes
  back to the queue. Over a whole call of \<open>downloadCharts\<close>, whatever the transport and
  the order of resumption, every file in the cache at the end was there when the call
  began or is the body of a response whose status was OK and whose content type does
  not contain \<open>text/html\<close>.
\<close>

theorem html_disguise_rejected:
  assumes answer: "session env (index it) a (downloadFile_request (url it)) = Inr r"
    and okr: "ok r"
    and html: "includesStr (orElse (contentType r) []) ''text/html''"
  shows "downloadFile (session env (index it) a) (url it) (localPathOf env (url it)) fs
           = (Inl HtmlInsteadOfImage, fs)
       \<and> resume env (AwaitFetch it a) st = (AwaitDownloadFile it a (Inl HtmlInsteadOfImage), st)
       \<and> (a < 3 \<longrightarrow>
            resume env (AwaitDownloadFile it a (Inl HtmlInsteadOfImage)) st
              = (AwaitTimer it a (1500 * a),
                 st\<lparr>files := (files st)(localPathOf env (url it) := None)\<rparr>))
       \<and> (3 \<le> a \<longrightarrow>
            resume env (AwaitDownloadFile it a (Inl HtmlInsteadOfImage)) st
              = worker env (onDownloaded
                  (st\<lparr>files := (files st)(localPathOf env (url it) := None),
                      results := setResult (results st) (index it) []\<rparr>)))
       \<and> (\<forall>p c. files (snd (downloadCharts_run env sched urls fs0)) p = Some c \<longrightarrow>
            fs0 p = Some c
            \<or> (\<exists>i n u r'. session env i n (downloadFile_request u) = Inr r' \<and> body r' = c
                  \<and> ok r' \<and> \<not> includesStr (orElse (contentType r') []) ''text/html''))"
proof -
  from assms
  have step: "downloadFile (session env (index it) a) (url it) (localPathOf env (url it)) fs
           = (Inl HtmlInsteadOfImage, fs)
       \<and> resume env (AwaitFetch it a) st = (AwaitDownloadFile it a (Inl HtmlInsteadOfImage), st)
       \<and> (a < 3 \<longrightarrow>
            resume env (AwaitDownloadFile it a (Inl HtmlInsteadOfImage)) st
              = (AwaitTimer it a (1500 * a),
                 st\<lparr>files := (files st)(localPathOf env (url it) := None)\<rparr>))
       \<and> (3 \<le> a \<longrightarrow>
            resume env (AwaitDownloadFile it a (Inl HtmlInsteadOfImage)) st
              = worker env (onDownloaded
                  (st\<lparr>files := (files st)(localPathOf env (url it) := None),
                      results := setResult (results st) (index it) []\<rparr>)))"
    by (simp add: downloadFile_def downloadFile_afterFetch_def attemptFailed_def unlinkIfExists
          forLoop_def finishItem_def)
  have run: "fs0 p = Some c
            \<or> (\<exists>i n u r'. session env i n (downloadFile_request u) = Inr r' \<and> body r' = c
                  \<and> ok r' \<and> \<not> includesStr (orElse (contentType r') []) ''text/html'')"
    if "files (snd (downloadCharts_run env sched urls fs0)) p = Some c" for p c
  proof -
    from downloadCharts_run_clean [of env fs0 sched urls] that
    have "fs0 p = Some c \<or> servedBody env c" unfolding cleanFiles_def by blast
    then show ?thesis
      unfolding servedBody_def by (blast dest: downloadFile_afterFetch_Inr)
  qed
  from step run show ?thesis by blast
qed

theorem html_disguise_rejected_witness:
  "resume cacheEnv (AwaitFetch chartItem 1) (cachedState 5)
     = (AwaitDownloadFile chartItem 1 (Inl HtmlInsteadOfImage), cachedState 5)
   \<and> resume cacheEnv (AwaitDownloadFile chartItem 1 (Inl HtmlInsteadOfImage)) (cachedState 5)
     = (AwaitTimer chartItem 1 1500, (cachedState 5)\<lparr>files := Map.empty\<rparr>)"
proof -
  have "session cacheEnv (index chartItem) 1 (downloadFile_request (url chartItem))
          = Inr htmlLoginPage"
    by (simp add: cacheEnv_def)
  moreover have "ok htmlLoginPage" by (simp add: ok_def htmlLoginPage_def)
  moreover have "includesStr (orElse (contentType htmlLoginPage) []) ''text/html''"
    by (simp add: orElse_def htmlLoginPage_def)
  ultimately show ?thesis
    using html_disguise_rejected [of cacheEnv chartItem 1 htmlLoginPage Map.empty "cachedState 5"]
    by (simp add: chartPath_eq) (simp add: cachedState_def)
qed

section \<open>Three attempts, then the empty string, and the batch goes on\<close>

text \<open>
  The retry schedule. After a failed attempt \<open>a\<close> with \<open>a < 3\<close> the worker removes the
  file at the cache path and sleeps \<open>1500 * a\<close> ms, and when the timer fires it issues the
  fetch of attempt \<open>a + 1\<close>. After a failed third attempt there is no timer and no fetch:
  the worker records the empty string in the slot of that entry, changing no other
  slot, and goes back to the queue loop. Over a whole call of \<open>downloadCharts\<close>, whatever
  the transport and the order of resumption, every slot ends up assigned and the
  fetches issued for an index are those of the attempts 1 to \<open>m\<close> for some \<open>m\<close> up to 3.
\<close>

theorem retry_schedule:
  "(a < 3 \<longrightarrow>
      attemptFailed env it a st
        = (AwaitTimer it a (1500 * a),
           st\<lparr>files := (files st)(localPathOf env (url it) := None)\<rparr>)
      \<and> resume env (AwaitTimer it a (1500 * a)) st'
        = (AwaitFetch it (a + 1), st'\<lparr>fetchLog := fetchLog st' @ [(index it, a + 1)]\<rparr>))
   \<and> attemptFailed env it 3 st
        = worker env (onDownloaded
            (st\<lparr>files := (files st)(localPathOf env (url it) := None),
                results := setResult (results st) (index it) []\<rparr>))
   \<and> (\<forall>i<length urls.
         downloadCharts env sched urls fs ! i \<noteq> None
         \<and> (\<exists>m\<le>3. attemptsOf i (fetchLog (snd (downloadCharts_run env sched urls fs)))
                    = [1..<Suc m]))"
proof -
  note settledOK_attempts
  with downloadCharts_run_settled
          [of env sched urls fs "fst (downloadCharts_run env sched urls fs)"
              "snd (downloadCharts_run env sched urls fs)"]
  have "\<forall>i<length urls.
         downloadCharts env sched urls fs ! i \<noteq> None
         \<and> (\<exists>m\<le>3. attemptsOf i (fetchLog (snd (downloadCharts_run env sched urls fs)))
                    = [1..<Suc m])"
    by (fastforce simp: downloadCharts_def)
  then show ?thesis
    by (simp add: attemptFailed_def unlinkIfExists forLoop_def finishItem_def callDownloadFile_def)
qed

theorem retry_schedule_witness:
  "attemptFailed batchEnv chartItem 1 (cachedState 5)
     = (AwaitTimer chartItem 1 1500,
        (cachedState 5)\<lparr>files := (files (cachedState 5))(localPathOf batchEnv (url chartItem) := None)\<rparr>)
   \<and> attemptFailed batchEnv chartItem 2 (cachedState 5)
     = (AwaitTimer chartItem 2 3000,
        (cachedState 5)\<lparr>files := (files (cachedState 5))(localPathOf batchEnv (url chartItem) := None)\<rparr>)
   \<and> (3::nat) < length batchUrls
   \<and> downloadCharts batchEnv roundRobin batchUrls Map.empty ! 3 \<noteq> None
   \<and> attemptsOf 3 (fetchLog (snd (downloadCharts_run batchEnv roundRobin batchUrls Map.empty)))
       = [1, 2, 3]"
proof -
  have lt: "(3::nat) < length batchUrls" by (simp add: batchUrls_def)
  from retry_schedule [of 1 batchEnv chartItem "cachedState 5" "cachedState 5" batchUrls roundRobin Map.empty]
  have a1: "attemptFailed batchEnv chartItem 1 (cachedState 5)
     = (AwaitTimer chartItem 1 1500,
        (cachedState 5)\<lparr>files := (files (cachedState 5))(localPathOf batchEnv (url chartItem) := None)\<rparr>)"
    and run: "\<forall>i<length batchUrls.
         downloadCharts batchEnv roundRobin batchUrls Map.empty ! i \<noteq> None
         \<and> (\<exists>m\<le>3. attemptsOf i (fetchLog (snd (downloadCharts_run batchEnv roundRobin batchUrls Map.empty)))
                    = [1..<Suc m])"
    by simp_all
  from retry_schedule [of 2 batchEnv chartItem "cachedState 5" "cachedState 5" batchUrls roundRobin Map.empty]
  have a2: "attemptFailed batchEnv chartItem 2 (cachedState 5)
     = (AwaitTimer chartItem 2 3000,
        (cachedState 5)\<lparr>files := (files (cachedState 5))(localPathOf batchEnv (url chartItem) := None)\<rparr>)"
    by simp
  from run lt have "downloadCharts batchEnv roundRobin batchUrls Map.empty ! 3 \<noteq> None" by blast
  with a1 a2 lt show ?thesis by (simp add: batch_log attemptsOf_def)
qed

text \<open>
  Claim C6 ends with: a failure of one item never alters the outcome of another item of
  the batch. Items with the same URL have the same cache path, and the \<open>catch\<close> block
  unlinks whatever file is at that path. In the batch \<open>a.png\<close>, \<open>a.png\<close>, \<open>b.png\<close>, \<open>a.png\<close>
  with an empty cache, index 0 is served the image and every other fetch the login
  page: index 0 is downloaded and its slot holds the cache path; the first failed
  attempt of index 1 then unlinks that file; index 3 finds no file, fetches three
  times and ends with the empty string. At the end slot 0 names a file that does not
  exist. When the fetch for index 1 is served the image instead, and nothing else
  differs, index 3 finds the file in the cache and its slot holds the path.
\<close>

theorem failed_duplicate_unlinks_shared_file:
  "downloadCharts_run (dupEnv False) dupSched dupUrls Map.empty
     = ([WorkerDone, WorkerDone],
        \<lparr>queue = [],
           results = [Some ''/cache/httppapng0000000.png'', Some [], Some [], Some []],
           files = Map.empty,
           downloaded = 4,
           fetchLog = [(0, 1), (1, 1), (2, 1), (1, 2), (2, 2), (1, 3), (2, 3),
                       (3, 1), (3, 2), (3, 3)]\<rparr>)
   \<and> downloadCharts_run (dupEnv True) dupSched dupUrls Map.empty
     = ([WorkerDone, WorkerDone],
        \<lparr>queue = [],
           results = [Some ''/cache/httppapng0000000.png'',
                      Some ''/cache/httppapng0000000.png'', Some [],
                      Some ''/cache/httppapng0000000.png''],
           files = [''/cache/httppapng0000000.png'' \<mapsto> body pngImage],
           downloaded = 4,
           fetchLog = [(0, 1), (1, 1), (2, 1), (2, 2), (2, 3)]\<rparr>)"
  by (simp add: pool_eval dup_paths dup_valid served pngImage_body dupUrls_def dupSched_def
        dupEnv_def [THEN arg_cong [where f = session]])

section \<open>No data is a result, not an exception\<close>

text \<open>
  Claim C7. When the product has been selected, the stability wait has returned 0,
  the fallback script has run and the second stability wait has returned 0 as well,
  \<open>_fetchChartUrls\<close> returns the record with an empty product name, an empty date and
  no steps, as a value and not as an exception; and \<open>fetchChartUrls\<close>, called with the
  lock free, resolves with that same record after releasing the lock.
\<close>

theorem empty_result_is_a_return:
  assumes sel: "selectProduct env productId s = (Inr (), s1)"
    and w1: "waitForStableArray env s1 = (Inr (JNum 0), s2)"
    and fb: "executeJavaScript env Fallback s2 = (Inr v, s3)"
    and w2: "waitForStableArray env (delay 1000 s3) = (Inr (JNum 0), s4)"
  shows "fetchChartUrls_impl env productId s
           = (Inr \<lparr>productName = [], date = [], steps = []\<rparr>, s4)
       \<and> (\<forall>caller t. \<not> mutexLocked (lock t) \<and> s = t\<lparr>lock := (lock t)\<lparr>mutexLocked := True\<rparr>\<rparr> \<longrightarrow>
            fetchChartUrls caller env productId t
              = (Settled (Inr \<lparr>productName = [], date = [], steps = []\<rparr>),
                 s4\<lparr>lock := snd (releaseLock (lock s4))\<rparr>))"
proof -
  from sel w1 fb w2
  have impl: "fetchChartUrls_impl env productId s
           = (Inr \<lparr>productName = [], date = [], steps = []\<rparr>, s4)"
    by (simp add: fetchChartUrls_impl_def bindE_def fallbackWait_def pause_def returnE_def
          emptyChartUrls_def)
  then show ?thesis
    by (auto simp: fetchChartUrls_def underLock_def acquireLock_def)
qed

theorem empty_result_is_a_return_witness:
  "fst (fetchChartUrls_impl emptyPage ''42'' (serviceWith 0 freeLock))
     = Inr \<lparr>productName = [], date = [], steps = []\<rparr>
   \<and> fst (fetchChartUrls 7 emptyPage ''42'' (serviceWith 0 freeLock))
     = Settled (Inr \<lparr>productName = [], date = [], steps = []\<rparr>)
   \<and> lock (snd (fetchChartUrls 7 emptyPage ''42'' (serviceWith 0 freeLock))) = freeLock"
proof -
  let ?held = "freeLock\<lparr>mutexLocked := True\<rparr>"
  note free = empty_result_is_a_return
    [OF emptyPage_select emptyPage_first_wait emptyPage_fallback emptyPage_second_wait,
     of freeLock]
  note held = empty_result_is_a_return
    [OF emptyPage_select emptyPage_first_wait emptyPage_fallback emptyPage_second_wait,
     of ?held]
  from free have a: "fst (fetchChartUrls_impl emptyPage ''42'' (serviceWith 0 freeLock))
     = Inr \<lparr>productName = [], date = [], steps = []\<rparr>"
    by simp
  have "\<not> mutexLocked (lock (serviceWith 0 freeLock))
      \<and> serviceWith 0 ?held = (serviceWith 0 freeLock)\<lparr>lock := (lock (serviceWith 0 freeLock))\<lparr>mutexLocked := True\<rparr>\<rparr>"
    by (simp add: serviceWith_def freeLock_def)
  with held have "fetchChartUrls 7 emptyPage ''42'' (serviceWith 0 freeLock)
      = (Settled (Inr \<lparr>productName = [], date = [], steps = []\<rparr>),
         \<lparr>now = 306000, evals = 12, fetchCount = 2, lock = ?held,
         scriptLog =
           [(ResetArray, Inr (JNum 0)), (SelectProduct ''42'', Inr (JNum 0)),
            (ReadSelected, Inr (JNum 0)), (SelectProduct ''42'', Inr (JNum 0)),
            (ReadSelected, Inr (JNum 0)), (ReadArrayLength, Inr (JNum 0)),
            (ReadArrayLength, Inr (JNum 0)), (ReadArrayLength, Inr (JNum 0)),
            (Fallback, Inr (JNum 0)), (ReadArrayLength, Inr (JNum 0)),
            (ReadArrayLength, Inr (JNum 0)), (ReadArrayLength, Inr (JNum 0))]\<rparr>
          \<lparr>lock := snd (releaseLock (lock \<lparr>now = 306000, evals = 12, fetchCount = 2, lock = ?held,
         scriptLog =
           [(ResetArray, Inr (JNum 0)), (SelectProduct ''42'', Inr (JNum 0)),
            (ReadSelected, Inr (JNum 0)), (SelectProduct ''42'', Inr (JNum 0)),
            (ReadSelected, Inr (JNum 0)), (ReadArrayLength, Inr (JNum 0)),
            (ReadArrayLength, Inr (JNum 0)), (ReadArrayLength, Inr (JNum 0)),
            (Fallback, Inr (JNum 0)), (ReadArrayLength, Inr (JNum 0)),
            (ReadArrayLength, Inr (JNum 0)), (ReadArrayLength, Inr (JNum 0))]\<rparr>))\<rparr>)"
    by blast
  then have b: "fst (fetchChartUrls 7 emptyPage ''42'' (serviceWith 0 freeLock))
     = Settled (Inr \<lparr>productName = [], date = [], steps = []\<rparr>)"
    and c: "lock (snd (fetchChartUrls 7 emptyPage ''42'' (serviceWith 0 freeLock))) = freeLock"
    by (simp_all add: releaseLock_def freeLock_def)
  from a b c show ?thesis by simp
qed

section \<open>Ensuring the product type: when the reload is skipped\<close>

text \<open>
  Claim C8, as amended. \<open>_ensureProductType\<close> first reads the current value of the form
  field. When the search page is reached and the value read is identical to the value
  mapped to the requested type, the operation returns in the state right after that
  read: no script sets the field or triggers the reload, nothing is waited for. When
  the value read is not identical to it, the set-and-trigger script is run exactly
  once. So one call runs that script at most once; and of two calls in a row with the
  same type the second runs it again unless it reads the mapped value back: the two
  calls together run it at most once when the second call's read is identical to the
  mapped value, and twice when neither read is.
\<close>

theorem ensure_product_type_skips_when_read_back:
  "(\<forall>s1 cur s2. ensureSearchPage env s = (Inr (), s1)
       \<and> executeJavaScript env ReadArea s1 = (Inr cur, s2) \<longrightarrow>
       (strictEquals cur (typeValueOf productType) \<longrightarrow>
          ensureProductType_impl env productType s = (Inr (), s2))
       \<and> reloadCount (snd (ensureProductType_impl env productType s))
           = reloadCount s + (if strictEquals cur (typeValueOf productType) then 0 else 1))
   \<and> reloadCount (snd (ensureProductType_impl env productType s)) \<le> reloadCount s + 1
   \<and> (\<forall>r1 s1 s2 cur s3. ensureProductType_impl env productType s = (r1, s1)
       \<and> ensureSearchPage env s1 = (Inr (), s2)
       \<and> executeJavaScript env ReadArea s2 = (Inr cur, s3)
       \<and> strictEquals cur (typeValueOf productType) \<longrightarrow>
       ensureProductType_impl env productType s1 = (Inr (), s3)
       \<and> reloadCount (snd (ensureProductType_impl env productType s1)) \<le> reloadCount s + 1)
   \<and> (\<forall>a1 c1 a2 r1 s1 b1 c2 b2. ensureSearchPage env s = (Inr (), a1)
       \<and> executeJavaScript env ReadArea a1 = (Inr c1, a2)
       \<and> \<not> strictEquals c1 (typeValueOf productType)
       \<and> ensureProductType_impl env productType s = (r1, s1)
       \<and> ensureSearchPage env s1 = (Inr (), b1)
       \<and> executeJavaScript env ReadArea b1 = (Inr c2, b2)
       \<and> \<not> strictEquals c2 (typeValueOf productType) \<longrightarrow>
       reloadCount (snd (ensureProductType_impl env productType s1)) = reloadCount s + 2)"
proof (intro conjI allI impI)
  fix s1 cur s2
  assume a: "ensureSearchPage env s = (Inr (), s1)
       \<and> executeJavaScript env ReadArea s1 = (Inr cur, s2)"
  then show "reloadCount (snd (ensureProductType_impl env productType s))
           = reloadCount s + (if strictEquals cur (typeValueOf productType) then 0 else 1)"
    by (simp add: ensureProductType_reloads_exactly)
  assume "strictEquals cur (typeValueOf productType)"
  with a show "ensureProductType_impl env productType s = (Inr (), s2)"
    by (simp add: ensureProductType_read_back)
next
  show "reloadCount (snd (ensureProductType_impl env productType s)) \<le> reloadCount s + 1"
    by (rule ensureProductType_reloads)
next
  fix r1 s1 s2 cur s3
  assume a: "ensureProductType_impl env productType s = (r1, s1)
       \<and> ensureSearchPage env s1 = (Inr (), s2)
       \<and> executeJavaScript env ReadArea s2 = (Inr cur, s3)
       \<and> strictEquals cur (typeValueOf productType)"
  then show second: "ensureProductType_impl env productType s1 = (Inr (), s3)"
    by (simp add: ensureProductType_read_back)
  from a ensureProductType_reloads_exactly [of env s1 s2 cur s3 productType]
  have "reloadCount (snd (ensureProductType_impl env productType s1)) = reloadCount s1" by simp
  moreover from a ensureProductType_reloads [of env productType s]
  have "reloadCount s1 \<le> reloadCount s + 1" by simp
  ultimately show "reloadCount (snd (ensureProductType_impl env productType s1))
      \<le> reloadCount s + 1"
    by simp
next
  fix a1 c1 a2 r1 s1 b1 c2 b2
  assume a: "ensureSearchPage env s = (Inr (), a1)
       \<and> executeJavaScript env ReadArea a1 = (Inr c1, a2)
       \<and> \<not> strictEquals c1 (typeValueOf productType)
       \<and> ensureProductType_impl env productType s = (r1, s1)
       \<and> ensureSearchPage env s1 = (Inr (), b1)
       \<and> executeJavaScript env ReadArea b1 = (Inr c2, b2)
       \<and> \<not> strictEquals c2 (typeValueOf productType)"
  from a ensureProductType_reloads_exactly [of env s a1 c1 a2 productType]
  have "reloadCount s1 = reloadCount s + 1" by simp
  moreover from a ensureProductType_reloads_exactly [of env s1 b1 c2 b2 productType]
  have "reloadCount (snd (ensureProductType_impl env productType s1)) = reloadCount s1 + 1"
    by simp
  ultimately show "reloadCount (snd (ensureProductType_impl env productType s1))
      = reloadCount s + 2"
    by simp
qed

theorem ensure_product_type_skips_when_read_back_witness:
  "ensureProductType_impl formPage ''SATELLITE'' (serviceWith 0 freeLock)
     = (Inr (),
        \<lparr>now = 27500, evals = 3, fetchCount = 0, lock = freeLock,
           scriptLog = [(ReadArea, Inr (JStr ''1'')), (SetArea ''2'', Inr (JStr ''2'')),
                        (ListLoaded, Inr (JStr ''2''))]\<rparr>)
   \<and> ensureProductType_impl formPage ''SATELLITE''
        \<lparr>now = 27500, evals = 3, fetchCount = 0, lock = freeLock,
           scriptLog = [(ReadArea, Inr (JStr ''1'')), (SetArea ''2'', Inr (JStr ''2'')),
                        (ListLoaded, Inr (JStr ''2''))]\<rparr>
     = (Inr (),
        \<lparr>now = 36500, evals = 4, fetchCount = 0, lock = freeLock,
           scriptLog = [(ReadArea, Inr (JStr ''1'')), (SetArea ''2'', Inr (JStr ''2'')),
                        (ListLoaded, Inr (JStr ''2'')), (ReadArea, Inr (JStr ''2''))]\<rparr>)
   \<and> reloadCount (snd (ensureProductType_impl formPage ''SATELLITE''
        \<lparr>now = 27500, evals = 3, fetchCount = 0, lock = freeLock,
           scriptLog = [(ReadArea, Inr (JStr ''1'')), (SetArea ''2'', Inr (JStr ''2'')),
                        (ListLoaded, Inr (JStr ''2''))]\<rparr>))
     \<le> reloadCount (serviceWith 0 freeLock) + 1
   \<and> reloadCount (snd (ensureProductType_impl stuckPage ''SATELLITE'' (serviceWith 0 freeLock)))
     = reloadCount (serviceWith 0 freeLock) + 1"
proof -
  let ?s1 = "\<lparr>now = 27500, evals = 3, fetchCount = 0, lock = freeLock,
           scriptLog = [(ReadArea, Inr (JStr ''1'')), (SetArea ''2'', Inr (JStr ''2'')),
                        (ListLoaded, Inr (JStr ''2''))]\<rparr>"
  let ?s2 = "\<lparr>now = 36500, evals = 4, fetchCount = 0, lock = freeLock,
           scriptLog = [(ReadArea, Inr (JStr ''1'')), (SetArea ''2'', Inr (JStr ''2'')),
                        (ListLoaded, Inr (JStr ''2'')), (ReadArea, Inr (JStr ''2''))]\<rparr>"
  let ?t1 = "\<lparr>now = 9000, evals = 1, fetchCount = 0, lock = freeLock,
           scriptLog = [(ReadArea, Inr (JStr ''1''))]\<rparr>"
  have first: "ensureProductType_impl formPage ''SATELLITE'' (serviceWith 0 freeLock) = (Inr (), ?s1)"
    by (simp add: ensureProductType_impl_def satellite_value page_eval waitForCondition_def
          waitForConditionLoop.simps formPage_def serviceWith_def)
  have page: "ensureSearchPage formPage ?s1 = (Inr (), ?s1)"
    by (simp add: ensureSearchPage_def formPage_def)
  have read: "executeJavaScript formPage ReadArea ?s1 = (Inr (JStr ''2''), ?s2)"
    by (simp add: executeJavaScript_def formPage_def)
  have same: "strictEquals (JStr ''2'') (typeValueOf ''SATELLITE'')"
    by (simp add: satellite_value)
  have page0: "ensureSearchPage stuckPage (serviceWith 0 freeLock) = (Inr (), serviceWith 0 freeLock)"
    by (simp add: ensureSearchPage_def stuckPage_def serviceWith_def)
  have read0: "executeJavaScript stuckPage ReadArea (serviceWith 0 freeLock) = (Inr (JStr ''1''), ?t1)"
    by (simp add: executeJavaScript_def stuckPage_def serviceWith_def)
  note form = ensure_product_type_skips_when_read_back
    [of formPage "serviceWith 0 freeLock" "''SATELLITE''"]
  note stuck = ensure_product_type_skips_when_read_back
    [of stuckPage "serviceWith 0 freeLock" "''SATELLITE''"]
  note both = form [THEN conjunct2, THEN conjunct2, THEN conjunct1, rule_format,
      OF conjI [OF first conjI [OF page conjI [OF read same]]]]
  from both [THEN conjunct1] both [THEN conjunct2]
  have second: "ensureProductType_impl formPage ''SATELLITE'' ?s1 = (Inr (), ?s2)"
    and once: "reloadCount (snd (ensureProductType_impl formPage ''SATELLITE'' ?s1))
      \<le> reloadCount (serviceWith 0 freeLock) + 1"
    by blast+
  from stuck [THEN conjunct1, rule_format, OF conjI [OF page0 read0]]
  have "reloadCount (snd (ensureProductType_impl stuckPage ''SATELLITE'' (serviceWith 0 freeLock)))
     = reloadCount (serviceWith 0 freeLock) + 1"
    by (simp add: satellite_value)
  with first second once show ?thesis by simp
qed

text \<open>
  The sentence as the specification has it, two calls in a row run the reload script
  at most once, fails on a page whose form field does not take the value: both calls
  read \<open>1\<close>, both set the field to \<open>2\<close> and trigger the reload.
\<close>

theorem second_call_reloads_again:
  "reloadCount (snd (ensureProductType_impl stuckPage ''SATELLITE''
      (snd (ensureProductType_impl stuckPage ''SATELLITE'' (serviceWith 0 freeLock)))))
     = reloadCount (serviceWith 0 freeLock) + 2
   \<and> \<not> reloadCount (snd (ensureProductType_impl stuckPage ''SATELLITE''
      (snd (ensureProductType_impl stuckPage ''SATELLITE'' (serviceWith 0 freeLock)))))
       \<le> reloadCount (serviceWith 0 freeLock) + 1"
  by (simp add: stuckPage_first stuckPage_second reloadCount_def serviceWith_fields)

section \<open>Cold and warm stability waits\<close>

text \<open>
  Claim C9. The counter that decides between cold and warm is \<open>fetchCount\<close>, and
  it counts stability waits: every call of \<open>_waitForStableArray\<close> adds one to it. A wait
  that finds the counter below 2 (the first and the second wait of the session) polls
  with \<open>maxWait\<close> = 30000 ms and \<open>minTotalWait\<close> = 4000 ms, every later wait with
  20000 ms and 2000 ms. What the bounds mean: a wait that runs out of time returns no
  earlier than \<open>maxWait\<close> after it began, and a wait that returns a confirmed length
  returns no earlier than \<open>minTotalWait\<close> plus the 1500 ms of the confirmation; a round
  of the poll begins only while less than \<open>maxWait\<close> has elapsed, so on a page whose
  evaluations take at most \<open>L\<close> ms every wait is over no later than
  \<open>maxWait + 3 L + 2000\<close> ms after it began; and a round whose read repeats the last
  length goes on to the confirmation exactly when the counter has reached 6 and
  \<open>minTotalWait\<close> has elapsed, and otherwise only adds one to the counter. A call of
  \<open>_fetchChartUrls\<close> whose first wait finds no entries and whose fallback script runs
  makes a second wait, so it adds two to the counter; one whose first wait returns a
  length other than 0 adds one.
\<close>

theorem cold_for_first_two_waits:
  "waitForStableArray_exit env s
     = waitLoop env (if fetchCount s < 2 then 30000 else 20000)
         (if fetchCount s < 2 then 4000 else 2000) (now s) (JNum 0) 0
         (s\<lparr>fetchCount := fetchCount s + 1\<rparr>)
   \<and> fetchCount (snd (waitForStableArray env s)) = fetchCount s + 1
   \<and> (\<forall>c s'. waitForStableArray_exit env s = (Inr (TimedOut, c), s') \<longrightarrow>
         now s + (if fetchCount s < 2 then 30000 else 20000) \<le> now s')
   \<and> (\<forall>c s'. waitForStableArray_exit env s = (Inr (Confirmed, c), s') \<longrightarrow>
         now s + (if fetchCount s < 2 then 4000 else 2000) + 1500 \<le> now s')
   \<and> (\<forall>s1 s2 v s3. selectProduct env productId s = (Inr (), s1)
         \<and> waitForStableArray env s1 = (Inr (JNum 0), s2)
         \<and> executeJavaScript env Fallback s2 = (Inr v, s3) \<longrightarrow>
         fetchCount (snd (fetchChartUrls_impl env productId s)) = fetchCount s + 2)
   \<and> (\<forall>s1 c s2. selectProduct env productId s = (Inr (), s1)
         \<and> waitForStableArray env s1 = (Inr c, s2) \<and> c \<noteq> JNum 0 \<longrightarrow>
         fetchCount (snd (fetchChartUrls_impl env productId s)) = fetchCount s + 1)
   \<and> (\<forall>L r s'. (\<forall>k. fst (evalJS env k) \<le> L) \<and> waitForStableArray_exit env s = (r, s') \<longrightarrow>
         now s' \<le> now s + (if fetchCount s < 2 then 30000 else 20000) + 3 * L + 2000)
   \<and> (\<forall>mx m start l k t. \<not> now t - start < mx \<longrightarrow>
         waitLoop env mx m start l k t
           = (case executeJavaScript env ReadArrayLength t of
                (Inl e, t') \<Rightarrow> (Inl e, t')
              | (Inr finalCount, t') \<Rightarrow>
                  (Inr (TimedOut, if gt0 finalCount then finalCount else JNum 0), t')))
   \<and> (\<forall>mx m start l k t. now t - start < mx \<longrightarrow>
         waitLoop env mx m start l k t
           = (case pollOnce env m start l k t of
                (Return c, t1) \<Rightarrow> (Inr (Confirmed, c), t1)
              | (Continue l' k', t1) \<Rightarrow> waitLoop env mx m start l' k' (delay 500 t1)))
   \<and> (\<forall>m start l k t t'.
         executeJavaScript env ReadArrayLength t = (Inr l, t') \<and> gt0 l
         \<and> \<not> (requiredStableChecks \<le> k + 1 \<and> m \<le> now t' - start) \<longrightarrow>
         pollOnce env m start l k t = (Continue l (k + 1), t'))
   \<and> (\<forall>m start l k t s1 c t'.
         executeJavaScript env ReadArrayLength t = (Inr l, s1) \<and> gt0 l
         \<and> requiredStableChecks \<le> k + 1 \<and> m \<le> now s1 - start
         \<and> executeJavaScript env ReadArrayLength (delay 1500 s1) = (Inr c, t') \<longrightarrow>
         pollOnce env m start l k t
           = (if c = l then (Return l, t') else (Continue c 0, t')))"
proof (intro conjI allI impI)
  let ?mx = "if fetchCount s < 2 then 30000 else 20000"
  let ?m = "if fetchCount s < 2 then 4000 else 2000"
  let ?s0 = "s\<lparr>fetchCount := fetchCount s + 1\<rparr>"
  show eq: "waitForStableArray_exit env s = waitLoop env ?mx ?m (now s) (JNum 0) 0 ?s0"
    by (auto simp: waitForStableArray_exit_def Let_def)
  show "fetchCount (snd (waitForStableArray env s)) = fetchCount s + 1"
    by (simp add: waitForStableArray_fetchCount)
  {
    fix c s' assume "waitForStableArray_exit env s = (Inr (TimedOut, c), s')"
    with eq have "waitLoop env ?mx ?m (now s) (JNum 0) 0 ?s0 = (Inr (TimedOut, c), s')" by simp
    from waitLoop_timing [OF _ this] show "now s + ?mx \<le> now s'" by simp
  }
  {
    fix c s' assume "waitForStableArray_exit env s = (Inr (Confirmed, c), s')"
    with eq have "waitLoop env ?mx ?m (now s) (JNum 0) 0 ?s0 = (Inr (Confirmed, c), s')" by simp
    from waitLoop_timing [OF _ this] show "now s + ?m + 1500 \<le> now s'" by simp
  }
  {
    fix s1 s2 v s3
    assume a: "selectProduct env productId s = (Inr (), s1)
         \<and> waitForStableArray env s1 = (Inr (JNum 0), s2)
         \<and> executeJavaScript env Fallback s2 = (Inr v, s3)"
    obtain r4 s4 where w2: "waitForStableArray env (delay 1000 s3) = (r4, s4)"
      by (cases "waitForStableArray env (delay 1000 s3)")
    from a have f1: "fetchCount s1 = fetchCount s"
      using keepsD [OF keeps_selectProduct [OF apart_fetchCount]] by blast
    from a waitForStableArray_fetchCount [of env s1] have f2: "fetchCount s2 = Suc (fetchCount s1)"
      by simp
    from a keepsD [OF keeps_executeJavaScript [OF apart_fetchCount]]
    have f3: "fetchCount s3 = fetchCount s2" by blast
    from w2 waitForStableArray_fetchCount [of env "delay 1000 s3"]
    have f4: "fetchCount s4 = Suc (fetchCount s3)" by (simp add: delay_def)
    have "fetchCount (snd (fetchChartUrls_impl env productId s)) = fetchCount s4"
    proof (cases r4)
      case (Inl e)
      with a w2 show ?thesis
        by (simp add: fetchChartUrls_impl_def bindE_def fallbackWait_def pause_def)
    next
      case (Inr c)
      with a w2 keepsD [OF keeps_extractCharts [OF apart_fetchCount], of env c s4] show ?thesis
        by (cases "extractCharts env c s4")
           (simp add: fetchChartUrls_impl_def bindE_def fallbackWait_def pause_def returnE_def)
    qed
    with f1 f2 f3 f4 show "fetchCount (snd (fetchChartUrls_impl env productId s)) = fetchCount s + 2"
      by simp
  }
  {
    fix s1 c s2
    assume a: "selectProduct env productId s = (Inr (), s1)
         \<and> waitForStableArray env s1 = (Inr c, s2) \<and> c \<noteq> JNum 0"
    from a have f1: "fetchCount s1 = fetchCount s"
      using keepsD [OF keeps_selectProduct [OF apart_fetchCount]] by blast
    from a waitForStableArray_fetchCount [of env s1] have f2: "fetchCount s2 = Suc (fetchCount s1)"
      by simp
    from a keepsD [OF keeps_extractCharts [OF apart_fetchCount], of env c s2]
    have "fetchCount (snd (fetchChartUrls_impl env productId s)) = fetchCount s2"
      by (cases "extractCharts env c s2")
         (simp add: fetchChartUrls_impl_def bindE_def fallbackWait_def returnE_def)
    with f1 f2 show "fetchCount (snd (fetchChartUrls_impl env productId s)) = fetchCount s + 1"
      by simp
  }
  {
    fix L r s'
    assume "(\<forall>k. fst (evalJS env k) \<le> L) \<and> waitForStableArray_exit env s = (r, s')"
    then show "now s' \<le> now s + ?mx + 3 * L + 2000"
      using waitForStableArray_exit_upper by blast
  }
  {
    fix mx m start l k and t :: pstate
    assume "\<not> now t - start < mx"
    then show "waitLoop env mx m start l k t
           = (case executeJavaScript env ReadArrayLength t of
                (Inl e, t') \<Rightarrow> (Inl e, t')
              | (Inr finalCount, t') \<Rightarrow>
                  (Inr (TimedOut, if gt0 finalCount then finalCount else JNum 0), t'))"
      by (rule waitLoop_out_of_time)
  }
  {
    fix mx m start l k and t :: pstate
    assume "now t - start < mx"
    then show "waitLoop env mx m start l k t
           = (case pollOnce env m start l k t of
                (Return c, t1) \<Rightarrow> (Inr (Confirmed, c), t1)
              | (Continue l' k', t1) \<Rightarrow> waitLoop env mx m start l' k' (delay 500 t1))"
      by (rule waitLoop_in_time)
  }
  {
    fix m start l k t t'
    assume "executeJavaScript env ReadArrayLength t = (Inr l, t') \<and> gt0 l
         \<and> \<not> (requiredStableChecks \<le> k + 1 \<and> m \<le> now t' - start)"
    then show "pollOnce env m start l k t = (Continue l (k + 1), t')"
      using pollOnce_same by blast
  }
  {
    fix m start l k t s1 c t'
    assume "executeJavaScript env ReadArrayLength t = (Inr l, s1) \<and> gt0 l
         \<and> requiredStableChecks \<le> k + 1 \<and> m \<le> now s1 - start
         \<and> executeJavaScript env ReadArrayLength (delay 1500 s1) = (Inr c, t')"
    then show "pollOnce env m start l k t
           = (if c = l then (Return l, t') else (Continue c 0, t'))"
      using pollOnce_confirmation by blast
  }
qed


theorem cold_for_first_two_waits_witness:
  "now (serviceWith 0 freeLock) + 30000
     \<le> now (snd (waitForStableArray_exit emptyPage (serviceWith 0 freeLock)))
   \<and> now (serviceWith 2 freeLock) + 20000
     \<le> now (snd (waitForStableArray_exit emptyPage (serviceWith 2 freeLock)))
   \<and> fetchCount (snd (waitForStableArray emptyPage (serviceWith 0 freeLock))) = 1
   \<and> fetchCount (snd (fetchChartUrls_impl emptyPage ''42'' (serviceWith 0 freeLock))) = 2
   \<and> now (snd (waitForStableArray_exit idlePage (serviceWith 0 freeLock))) = 31000
   \<and> 30000 \<le> now (snd (waitForStableArray_exit idlePage (serviceWith 0 freeLock)))
   \<and> now (snd (waitForStableArray_exit idlePage (serviceWith 0 freeLock))) \<le> 35000
   \<and> now (snd (waitForStableArray_exit idlePage (serviceWith 2 freeLock))) = 22000
   \<and> 20000 \<le> now (snd (waitForStableArray_exit idlePage (serviceWith 2 freeLock)))
   \<and> now (snd (waitForStableArray_exit idlePage (serviceWith 2 freeLock))) \<le> 25000
   \<and> now (snd (waitForStableArray_exit steadyPage (serviceWith 0 freeLock))) = 5900
   \<and> 5500 \<le> now (snd (waitForStableArray_exit steadyPage (serviceWith 0 freeLock)))
   \<and> now (snd (waitForStableArray_exit steadyPage (serviceWith 2 freeLock))) = 5300
   \<and> 3500 \<le> now (snd (waitForStableArray_exit steadyPage (serviceWith 2 freeLock)))"
proof -
  note cold = cold_for_first_two_waits [of emptyPage "serviceWith 0 freeLock" "''42''"]
  note warm = cold_for_first_two_waits [of emptyPage "serviceWith 2 freeLock" "''42''"]
  have fc: "fetchCount (serviceWith 0 freeLock) = 0" "fetchCount (serviceWith 2 freeLock) = 2"
    by (simp_all add: serviceWith_def)
  from cold [THEN conjunct2, THEN conjunct2, THEN conjunct1, rule_format,
             OF emptyPage_cold_wait]
  have a: "now (serviceWith 0 freeLock) + 30000
     \<le> now (snd (waitForStableArray_exit emptyPage (serviceWith 0 freeLock)))"
    by (simp add: fc emptyPage_cold_wait)
  from warm [THEN conjunct2, THEN conjunct2, THEN conjunct1, rule_format,
             OF emptyPage_warm_wait]
  have b: "now (serviceWith 2 freeLock) + 20000
     \<le> now (snd (waitForStableArray_exit emptyPage (serviceWith 2 freeLock)))"
    by (simp add: fc emptyPage_warm_wait)
  from cold [THEN conjunct2, THEN conjunct1]
  have c: "fetchCount (snd (waitForStableArray emptyPage (serviceWith 0 freeLock))) = 1"
    by (simp add: fc)
  from cold [THEN conjunct2, THEN conjunct2, THEN conjunct2, THEN conjunct2, THEN conjunct1,
             rule_format, OF conjI [OF emptyPage_select conjI [OF emptyPage_first_wait emptyPage_fallback]]]
  have d: "fetchCount (snd (fetchChartUrls_impl emptyPage ''42'' (serviceWith 0 freeLock))) = 2"
    by (simp add: fc)
  note idleCold = cold_for_first_two_waits [of idlePage "serviceWith 0 freeLock" "''42''"]
  note idleWarm = cold_for_first_two_waits [of idlePage "serviceWith 2 freeLock" "''42''"]
  note steadyCold = cold_for_first_two_waits [of steadyPage "serviceWith 0 freeLock" "''42''"]
  note steadyWarm = cold_for_first_two_waits [of steadyPage "serviceWith 2 freeLock" "''42''"]
  have quick: "(\<forall>k. fst (evalJS idlePage k) \<le> 1000)
     \<and> waitForStableArray_exit idlePage (serviceWith n freeLock)
       = (fst (waitForStableArray_exit idlePage (serviceWith n freeLock)),
          snd (waitForStableArray_exit idlePage (serviceWith n freeLock)))" for n
    by (simp add: idlePage_def)
  have out: "waitForStableArray_exit idlePage (serviceWith n freeLock)
       = (Inr (TimedOut, JNum 0), snd (waitForStableArray_exit idlePage (serviceWith n freeLock)))"
    if "fst (waitForStableArray_exit idlePage (serviceWith n freeLock)) = Inr (TimedOut, JNum 0)"
    for n
    using that by (metis prod.collapse)
  have conf: "waitForStableArray_exit steadyPage (serviceWith n freeLock)
       = (Inr (Confirmed, JNum 5), snd (waitForStableArray_exit steadyPage (serviceWith n freeLock)))"
    if "fst (waitForStableArray_exit steadyPage (serviceWith n freeLock)) = Inr (Confirmed, JNum 5)"
    for n
    using that by (metis prod.collapse)
  from idleCold [THEN conjunct2, THEN conjunct2, THEN conjunct1, rule_format,
      OF out [OF idlePage_cold_wait [THEN conjunct1]]]
  have e1: "30000 \<le> now (snd (waitForStableArray_exit idlePage (serviceWith 0 freeLock)))"
    by (simp add: serviceWith_fields)
  from idleCold [THEN conjunct2, THEN conjunct2, THEN conjunct2, THEN conjunct2, THEN conjunct2,
      THEN conjunct2, THEN conjunct1, rule_format, OF quick]
  have e2: "now (snd (waitForStableArray_exit idlePage (serviceWith 0 freeLock))) \<le> 35000"
    by (simp add: serviceWith_fields)
  from idleWarm [THEN conjunct2, THEN conjunct2, THEN conjunct1, rule_format,
      OF out [OF idlePage_warm_wait [THEN conjunct1]]]
  have e3: "20000 \<le> now (snd (waitForStableArray_exit idlePage (serviceWith 2 freeLock)))"
    by (simp add: serviceWith_fields)
  from idleWarm [THEN conjunct2, THEN conjunct2, THEN conjunct2, THEN conjunct2, THEN conjunct2,
      THEN conjunct2, THEN conjunct1, rule_format, OF quick]
  have e4: "now (snd (waitForStableArray_exit idlePage (serviceWith 2 freeLock))) \<le> 25000"
    by (simp add: serviceWith_fields)
  from steadyCold [THEN conjunct2, THEN conjunct2, THEN conjunct2, THEN conjunct1, rule_format,
      OF conf [OF steadyPage_cold_wait [THEN conjunct1]]]
  have e5: "5500 \<le> now (snd (waitForStableArray_exit steadyPage (serviceWith 0 freeLock)))"
    by (simp add: serviceWith_fields)
  from steadyWarm [THEN conjunct2, THEN conjunct2, THEN conjunct2, THEN conjunct1, rule_format,
      OF steadyPage_warm_wait]
  have e6: "3500 \<le> now (snd (waitForStableArray_exit steadyPage (serviceWith 2 freeLock)))"
    by (simp add: serviceWith_fields steadyPage_warm_wait)
  from a b c d e1 e2 e3 e4 e5 e6 show ?thesis
    by (simp add: idlePage_cold_wait idlePage_warm_wait steadyPage_cold_wait steadyPage_warm_wait)
qed

section \<open>fetchImage has none of the downloader's guards\<close>

text \<open>
  Claim C10. Whenever the transport delivers a response to the request of \<open>fetchImage\<close>:
  if the status is OK the result is the data URL built from the content type (or
  \<open>image/png\<close> when there is none) and the Base64 text of the body, whatever the content
  type and however short the body; \<open>fetchImage\<close> throws exactly when the status is not
  OK; and the request goes to the given URL when it starts with \<open>http\<close>, and otherwise to
  the portal's base URL, a slash, and the given URL without one leading slash.
  \<open>fetchImage\<close> has no file system among its arguments or results: it writes no cache
  file. The witness is the login page served with status 200 and \<open>text/html\<close>, which
  \<open>downloadFile\<close> rejects and \<open>fetchImage\<close> returns as a data URL.
\<close>

theorem fetchImage_unguarded:
  assumes delivered:
    "fetch \<lparr>req_url = fetchImage_url imageUrl, referer = PROMETEO_BASE_URL\<rparr> = Inr r"
  shows "(ok r \<longrightarrow> fetchImage fetch imageUrl =
            Inr (''data:'' @ orElse (contentType r) ''image/png'' @ '';base64,''
                 @ base64 (body r)))
       \<and> ((\<exists>e. fetchImage fetch imageUrl = Inl e) \<longleftrightarrow> \<not> ok r)
       \<and> fetchImage_url imageUrl =
            (if startsWith imageUrl ''http'' then imageUrl
             else ''https://prometeo2.meteoam.it/'' @ stripLeadingSlash imageUrl)"
  using delivered by (simp add: fetchImage_def fetchImage_url_def PROMETEO_BASE_URL_def)

theorem fetchImage_unguarded_witness:
  "fetchImage (\<lambda>req. Inr htmlLoginPage) ''/img/a.png'' = Inr ''data:text/html;base64,PGh0bWw+''
   \<and> fetchImage_url ''/img/a.png'' = ''https://prometeo2.meteoam.it/img/a.png''
   \<and> fst (downloadFile (\<lambda>req. Inr htmlLoginPage) ''https://prometeo2.meteoam.it/img/a.png''
             ''p'' Map.empty) = Inl HtmlInsteadOfImage"
  using fetchImage_unguarded [of "\<lambda>req. Inr htmlLoginPage" "''/img/a.png''" htmlLoginPage]
  by (simp add: htmlLoginPage_def ok_def orElse_def b64char_def b64alphabet_def
        downloadFile_def downloadFile_afterFetch_def)

end
